theory Spec2Isabelle
  imports Main "HOL-Library.Word"
begin

section \<open>The driver and the operating system as an environment\<close>

text \<open>
  The routines of \<^verbatim>\<open>cumem_functions.cpp\<close> compute little themselves: they issue calls to the
  device driver and to the operating system and decide from each return code whether to go
  on. The model therefore records every external call together with the answer it received,
  in the order of issue. Unsigned 64-bit quantities of the source (\<^verbatim>\<open>unsigned long long\<close>,
  \<^verbatim>\<open>size_t\<close>, \<^verbatim>\<open>CUdeviceptr\<close>, handles, and \<^verbatim>\<open>ssize_t\<close> once it is passed on as a size) are
  64-bit words, so that address and size arithmetic wraps as it does in the program.
\<close>

type_synonym u64 = "64 word"

text \<open>
  The return code of a driver call. The numeric values live in the compatibility header,
  which only matters through the comparison \<^verbatim>\<open>result != CUDA_SUCCESS\<close>.
\<close>

datatype CUresult = CUDA_SUCCESS | CUDA_ERROR nat

text \<open>
  One constructor per external call of the sources, with the arguments the call site
  passes: \<^verbatim>\<open>cuMemCreate\<close> gets the address of the handle slot, the chunk size and the
  device of the allocation properties; \<^verbatim>\<open>cuMemMap\<close> the mapping address, the size and the
  handle value read from the slot; \<^verbatim>\<open>cuMemSetAccess\<close> the base address, the size and the
  device of the access descriptor; \<^verbatim>\<open>sched_setaffinity\<close> the thread id and the CPU mask.
\<close>

datatype call =
    cuCtxGetCurrent
  | cuDevicePrimaryCtxRetain u64
  | cuCtxSetCurrent u64
  | gettid
  | sched_setaffinity u64 "nat set"
  | cuMemAddressReserve u64 u64
  | cuMemCreate nat u64 u64
  | cuMemMap u64 u64 u64
  | cuMemSetAccess u64 u64 u64
  | cuMemUnmap u64 u64
  | cuMemRelease u64

text \<open>
  An answer is a return code and the value written through the call's out-parameter (the
  current context, the new handle, the reserved address; for the two system calls the
  word is the returned integer). The environment is any function from the history of
  calls so far and the next call to its answer: it may fail or succeed at will.
\<close>

type_synonym response = "CUresult \<times> u64"
type_synonym event = "call \<times> response"
type_synonym driver = "event list \<Rightarrow> call \<Rightarrow> response"

text \<open>
  The program state that the claims observe: the calls issued so far with their answers,
  and the contents of the caller-owned handle slots (\<^verbatim>\<open>*p_memHandle[i]\<close>), addressed by
  slot address so that two entries of \<^verbatim>\<open>p_memHandle\<close> may alias.
\<close>

record state =
  events :: "event list"
  handles :: "nat \<Rightarrow> u64"

definition invoke :: "driver \<Rightarrow> call \<Rightarrow> state \<Rightarrow> response \<times> state" where
  "invoke drv c st =
     (let r = drv (events st) c in (r, st\<lparr>events := events st @ [(c, r)]\<rparr>))"

section \<open>ensure_context\<close>

text \<open>
  \<^verbatim>\<open>void ensure_context(device)\<close>: every failing driver call is logged and ends the
  function, which returns nothing to its caller.
\<close>

definition ensure_context :: "driver \<Rightarrow> u64 \<Rightarrow> state \<Rightarrow> state" where
  "ensure_context drv device st =
     (case invoke drv cuCtxGetCurrent st of
        ((result, pctx), st1) \<Rightarrow>
          if result \<noteq> CUDA_SUCCESS then st1
          else if pctx = 0 then
            (case invoke drv (cuDevicePrimaryCtxRetain device) st1 of
               ((result2, pctx2), st2) \<Rightarrow>
                 if result2 \<noteq> CUDA_SUCCESS then st2
                 else snd (invoke drv (cuCtxSetCurrent pctx2) st2))
          else st1)"

section \<open>set_cpu_affinity_for_gpu\<close>

text \<open>The loop \<^verbatim>\<open>for (int i = lo; i < hi; i++) CPU_SET(i, &mask)\<close> on a mask seen as a set.\<close>

function cpu_set_loop :: "nat \<Rightarrow> nat \<Rightarrow> nat set \<Rightarrow> nat set" where
  "cpu_set_loop i hi cpus =
     (if i < hi then cpu_set_loop (i + 1) hi (insert i cpus) else cpus)"
  by pat_completeness auto
termination
  by (relation "measure (\<lambda>(i, hi, cpus). hi - i)") auto

declare cpu_set_loop.simps [simp del]

text \<open>The mask built between \<^verbatim>\<open>CPU_ZERO\<close> and the call of \<^verbatim>\<open>sched_setaffinity\<close>.\<close>

definition affinity_mask :: "u64 \<Rightarrow> nat set" where
  "affinity_mask device =
     (if device \<le> 3 then cpu_set_loop 0 48 {} else cpu_set_loop 48 96 {})"

text \<open>
  The thread id is asked for first, then the mask is built and bound. A failure to bind is
  logged only.
\<close>

definition set_cpu_affinity_for_gpu :: "driver \<Rightarrow> u64 \<Rightarrow> state \<Rightarrow> state" where
  "set_cpu_affinity_for_gpu drv device st =
     (case invoke drv gettid st of
        ((_, tid), st1) \<Rightarrow> snd (invoke drv (sched_setaffinity tid (affinity_mask device)) st1))"

section \<open>create_and_map\<close>

text \<open>
  Which \<^verbatim>\<open>return\<close> a routine left through. The loop counters are declared \<^verbatim>\<open>auto i = 0\<close>,
  hence \<^verbatim>\<open>int\<close>: incrementing one at \<^verbatim>\<open>INT_MAX\<close> is undefined behaviour in C++, which the
  model reports as \<open>SignedOverflow\<close> instead of inventing a continuation.
\<close>

datatype status =
    Completed
  | CreateFailed nat
  | MapFailed nat
  | AccessFailed
  | UnmapFailed nat
  | ReleaseFailed nat
  | SignedOverflow

definition INT_MAX :: nat where
  "INT_MAX = 2147483647"

text \<open>
  The arrays \<^verbatim>\<open>p_memHandle\<close> and \<^verbatim>\<open>chunk_sizes\<close> are caller-owned memory read at index
  \<open>i\<close>; they are functions of the index here, the caller being bound to provide
  \<^verbatim>\<open>num_chunks\<close> entries. \<^verbatim>\<open>cuMemCreate\<close> gets the slot address \<^verbatim>\<open>p_memHandle[i]\<close> and writes
  the new handle through it; the model takes the write to happen when the call succeeds and
  the slot to keep its content when it fails. The counter \<open>i\<close> is never negative, so the
  comparison \<^verbatim>\<open>i < num_chunks\<close> against a \<^verbatim>\<open>size_t\<close> is the comparison of the numbers.
\<close>

function create_loop ::
  "driver \<Rightarrow> u64 \<Rightarrow> (nat \<Rightarrow> nat) \<Rightarrow> (nat \<Rightarrow> u64) \<Rightarrow> u64 \<Rightarrow> nat \<Rightarrow> state
    \<Rightarrow> status option \<times> state" where
  "create_loop drv device p_memHandle chunk_sizes num_chunks i st =
     (if i < unat num_chunks then
        (case invoke drv (cuMemCreate (p_memHandle i) (chunk_sizes i) device) st of
           ((result, h), st1) \<Rightarrow>
             if result \<noteq> CUDA_SUCCESS then (Some (CreateFailed i), st1)
             else if i = INT_MAX
               then (Some SignedOverflow, st1\<lparr>handles := (handles st1)(p_memHandle i := h)\<rparr>)
               else create_loop drv device p_memHandle chunk_sizes num_chunks (i + 1)
                      (st1\<lparr>handles := (handles st1)(p_memHandle i := h)\<rparr>))
      else (None, st))"
  by pat_completeness auto
termination
  by (relation "measure (\<lambda>(drv, device, p_memHandle, chunk_sizes, num_chunks, i, st).
        unat num_chunks - i)") auto

declare create_loop.simps [simp del]

function map_loop ::
  "driver \<Rightarrow> u64 \<Rightarrow> (nat \<Rightarrow> nat) \<Rightarrow> (nat \<Rightarrow> u64) \<Rightarrow> u64 \<Rightarrow> nat \<Rightarrow> u64 \<Rightarrow> state
    \<Rightarrow> status option \<times> state" where
  "map_loop drv d_mem p_memHandle chunk_sizes num_chunks i allocated_size st =
     (if i < unat num_chunks then
        (case invoke drv (cuMemMap (d_mem + allocated_size) (chunk_sizes i)
                            (handles st (p_memHandle i))) st of
           ((result, _), st1) \<Rightarrow>
             if result \<noteq> CUDA_SUCCESS then (Some (MapFailed i), st1)
             else if i = INT_MAX then (Some SignedOverflow, st1)
             else map_loop drv d_mem p_memHandle chunk_sizes num_chunks (i + 1)
                    (allocated_size + chunk_sizes i) st1)
      else (None, st))"
  by pat_completeness auto
termination
  by (relation "measure (\<lambda>(drv, d_mem, p_memHandle, chunk_sizes, num_chunks, i, a, st).
        unat num_chunks - i)") auto

declare map_loop.simps [simp del]

text \<open>What runs before the first chunk is touched: the context, then the affinity.\<close>

definition prologue :: "driver \<Rightarrow> u64 \<Rightarrow> state \<Rightarrow> state" where
  "prologue drv device st = set_cpu_affinity_for_gpu drv device (ensure_context drv device st)"

definition create_and_map ::
  "driver \<Rightarrow> u64 \<Rightarrow> u64 \<Rightarrow> u64 \<Rightarrow> (nat \<Rightarrow> nat) \<Rightarrow> (nat \<Rightarrow> u64) \<Rightarrow> u64 \<Rightarrow> state
    \<Rightarrow> status \<times> state" where
  "create_and_map drv device sz d_mem p_memHandle chunk_sizes num_chunks st =
     (case create_loop drv device p_memHandle chunk_sizes num_chunks 0
             (prologue drv device st) of
        (Some halted, st1) \<Rightarrow> (halted, st1)
      | (None, st1) \<Rightarrow>
          (case map_loop drv d_mem p_memHandle chunk_sizes num_chunks 0 0 st1 of
             (Some halted, st2) \<Rightarrow> (halted, st2)
           | (None, st2) \<Rightarrow>
               (case invoke drv (cuMemSetAccess d_mem sz device) st2 of
                  ((result, _), st3) \<Rightarrow>
                    if result \<noteq> CUDA_SUCCESS then (AccessFailed, st3)
                    else (Completed, st3))))"

section \<open>unmap_and_release\<close>

function unmap_loop ::
  "driver \<Rightarrow> u64 \<Rightarrow> (nat \<Rightarrow> u64) \<Rightarrow> u64 \<Rightarrow> nat \<Rightarrow> u64 \<Rightarrow> state
    \<Rightarrow> status option \<times> state" where
  "unmap_loop drv d_mem chunk_sizes num_chunks i allocated_size st =
     (if i < unat num_chunks then
        (case invoke drv (cuMemUnmap (d_mem + allocated_size) (chunk_sizes i)) st of
           ((result, _), st1) \<Rightarrow>
             if result \<noteq> CUDA_SUCCESS then (Some (UnmapFailed i), st1)
             else if i = INT_MAX then (Some SignedOverflow, st1)
             else unmap_loop drv d_mem chunk_sizes num_chunks (i + 1)
                    (allocated_size + chunk_sizes i) st1)
      else (None, st))"
  by pat_completeness auto
termination
  by (relation "measure (\<lambda>(drv, d_mem, chunk_sizes, num_chunks, i, a, st).
        unat num_chunks - i)") auto

declare unmap_loop.simps [simp del]

function release_loop ::
  "driver \<Rightarrow> (nat \<Rightarrow> nat) \<Rightarrow> u64 \<Rightarrow> nat \<Rightarrow> state \<Rightarrow> status option \<times> state" where
  "release_loop drv p_memHandle num_chunks i st =
     (if i < unat num_chunks then
        (case invoke drv (cuMemRelease (handles st (p_memHandle i))) st of
           ((result, _), st1) \<Rightarrow>
             if result \<noteq> CUDA_SUCCESS then (Some (ReleaseFailed i), st1)
             else if i = INT_MAX then (Some SignedOverflow, st1)
             else release_loop drv p_memHandle num_chunks (i + 1) st1)
      else (None, st))"
  by pat_completeness auto
termination
  by (relation "measure (\<lambda>(drv, p_memHandle, num_chunks, i, st). unat num_chunks - i)") auto

declare release_loop.simps [simp del]

definition unmap_and_release ::
  "driver \<Rightarrow> u64 \<Rightarrow> u64 \<Rightarrow> u64 \<Rightarrow> (nat \<Rightarrow> nat) \<Rightarrow> (nat \<Rightarrow> u64) \<Rightarrow> u64 \<Rightarrow> state
    \<Rightarrow> status \<times> state" where
  "unmap_and_release drv device sz d_mem p_memHandle chunk_sizes num_chunks st =
     (case unmap_loop drv d_mem chunk_sizes num_chunks 0 0 (ensure_context drv device st) of
        (Some halted, st1) \<Rightarrow> (halted, st1)
      | (None, st1) \<Rightarrow>
          (case release_loop drv p_memHandle num_chunks 0 st1 of
             (Some halted, st2) \<Rightarrow> (halted, st2)
           | (None, st2) \<Rightarrow> (Completed, st2)))"

section \<open>allocate_device_memory: sizes and chunk geometry\<close>

text \<open>
  The caller's bookkeeping, \<^verbatim>\<open>struct DeviceMemory\<close> of \<^verbatim>\<open>cumem_test.cpp\<close>. The two arrays are
  lists here, since \<^verbatim>\<open>allocate_device_memory\<close> itself allocates them with \<^verbatim>\<open>num_chunks\<close>
  entries.
\<close>

record DeviceMemory =
  mem_device :: u64
  mem_size :: u64
  mem_alignedSize :: u64
  mem_d_mem :: u64
  mem_p_memHandle :: "nat list"
  mem_chunk_sizes :: "u64 list"
  mem_num_chunks :: u64
  mem_allocated :: bool

definition CHUNK_SIZE_MB :: u64 where
  "CHUNK_SIZE_MB = 128"

text \<open>
  The initialisation loop over \<^verbatim>\<open>size_t i\<close>: entry \<open>i\<close> of both arrays is written in the
  \<open>i\<close>-th round, which appends it to what the earlier rounds wrote. \<open>slots i\<close> is the
  address \<^verbatim>\<open>malloc\<close> returns for the \<open>i\<close>-th handle slot.
\<close>

function init_chunks ::
  "(nat \<Rightarrow> nat) \<Rightarrow> u64 \<Rightarrow> u64 \<Rightarrow> u64 \<Rightarrow> nat \<Rightarrow> nat list \<times> u64 list
    \<Rightarrow> nat list \<times> u64 list" where
  "init_chunks slots alignedSize aligned_chunk_size num_chunks i arrays =
     (if i < unat num_chunks then
        init_chunks slots alignedSize aligned_chunk_size num_chunks (i + 1)
          (fst arrays @ [slots i],
           snd arrays @
             [if i = unat (num_chunks - 1)
              then alignedSize - (num_chunks - 1) * aligned_chunk_size
              else aligned_chunk_size])
      else arrays)"
  by pat_completeness auto
termination
  by (relation "measure (\<lambda>(slots, alignedSize, aligned_chunk_size, num_chunks, i, arrays).
        unat num_chunks - i)") auto

declare init_chunks.simps [simp del]

text \<open>
  How \<^verbatim>\<open>allocate_device_memory\<close> ends, as far as it is modelled: a division by zero (undefined
  in C++; HOL's \<open>div\<close> would silently give 0), the early \<^verbatim>\<open>return false\<close> after a failed
  reservation, or the call of \<^verbatim>\<open>create_and_map\<close> with its status.
\<close>

datatype alloc_outcome = DivisionByZero | ReserveFailed | Mapped status

text \<open>
  \<^verbatim>\<open>allocate_device_memory\<close> up to and including its call of \<^verbatim>\<open>create_and_map\<close>; what follows
  in the source is the harness's optional read-back check of the mapped region. All sizes are
  \<^verbatim>\<open>size_t\<close>, so every \<open>+\<close>, \<open>-\<close> and \<open>*\<close> below wraps at \<open>2 ^ 64\<close> and \<open>div\<close> is the unsigned
  division.
\<close>

definition allocate_device_memory ::
  "driver \<Rightarrow> (nat \<Rightarrow> nat) \<Rightarrow> DeviceMemory \<Rightarrow> u64 \<Rightarrow> u64 \<Rightarrow> state
    \<Rightarrow> alloc_outcome \<times> DeviceMemory \<times> state" where
  "allocate_device_memory drv slots mem sz granularity st =
     (if granularity = 0 then (DivisionByZero, mem\<lparr>mem_size := sz\<rparr>, st)
      else
        let mem1 = mem\<lparr>mem_size := sz,
                       mem_alignedSize := ((sz + granularity - 1) div granularity) * granularity\<rparr>
        in case invoke drv (cuMemAddressReserve (mem_alignedSize mem1) granularity) st of
             ((result, addr), st1) \<Rightarrow>
               if result \<noteq> CUDA_SUCCESS then (ReserveFailed, mem1, st1)
               else
                 let mem2 = mem1\<lparr>mem_d_mem := addr\<rparr>;
                     aligned_chunk_size =
                       ((CHUNK_SIZE_MB * 1024 * 1024 + granularity - 1) div granularity) * granularity
                 in if aligned_chunk_size = 0 then (DivisionByZero, mem2, st1)
                    else
                      let n = (mem_alignedSize mem2 + aligned_chunk_size - 1) div aligned_chunk_size;
                          arrays = init_chunks slots (mem_alignedSize mem2) aligned_chunk_size n 0 ([], []);
                          mem3 = mem2\<lparr>mem_num_chunks := n, mem_p_memHandle := fst arrays,
                                       mem_chunk_sizes := snd arrays\<rparr>
                      in case create_and_map drv (mem_device mem3) (mem_alignedSize mem3)
                                (mem_d_mem mem3) (\<lambda>i. mem_p_memHandle mem3 ! i)
                                (\<lambda>i. mem_chunk_sizes mem3 ! i) (mem_num_chunks mem3) st1 of
                           (s, st2) \<Rightarrow> (Mapped s, mem3, st2))"

section \<open>Vocabulary of the statements\<close>

text \<open>An event whose call the driver answered with success.\<close>

definition ok :: "event \<Rightarrow> bool" where
  "ok e = (fst (snd e) = CUDA_SUCCESS)"

text \<open>
  The byte offset of chunk \<open>i\<close> as the specification writes it,
  \<open>sum(chunkSizes[0..i))\<close>, in the 64-bit arithmetic of \<^verbatim>\<open>allocated_size\<close>.
\<close>

definition chunk_offset :: "(nat \<Rightarrow> u64) \<Rightarrow> nat \<Rightarrow> u64" where
  "chunk_offset cs i = sum_list (map cs [0..<i])"

text \<open>
  What one of the four chunk loops, entered at index \<open>i\<close> with bound \<open>n\<close>, leaves behind:
  \<open>r\<close> is how it ended and \<open>new\<close> the events it added. It either ran to the bound with
  every call answered by success, or stopped at the first failing call (index \<open>k\<close>, the last
  event), or reached the increment of the counter at \<open>INT_MAX\<close>.
\<close>

definition loop_post ::
  "(nat \<Rightarrow> status) \<Rightarrow> nat \<Rightarrow> nat \<Rightarrow> status option \<Rightarrow> event list \<Rightarrow> bool" where
  "loop_post failed i n r new =
     (case r of
        None \<Rightarrow> list_all ok new \<and> i + length new = max i n
      | Some s \<Rightarrow>
          if s = SignedOverflow
          then INT_MAX < n \<and> i + length new = Suc INT_MAX \<and> list_all ok new
          else \<exists>k. s = failed k \<and> i \<le> k \<and> k < n \<and> i + length new = Suc k \<and>
                 list_all ok (butlast new) \<and> \<not> ok (last new))"

text \<open>
  The call sequences the specification expects of the first \<open>j\<close> chunks: one creation per
  chunk; one mapping and one unmapping per chunk at the base address plus the offset of the
  chunk; one release per chunk. \<open>slot\<close> is the content of the handle slots.
\<close>

definition create_calls :: "u64 \<Rightarrow> (nat \<Rightarrow> nat) \<Rightarrow> (nat \<Rightarrow> u64) \<Rightarrow> nat \<Rightarrow> call list" where
  "create_calls device p_memHandle chunk_sizes j =
     map (\<lambda>i. cuMemCreate (p_memHandle i) (chunk_sizes i) device) [0..<j]"

definition map_calls ::
  "u64 \<Rightarrow> (nat \<Rightarrow> nat) \<Rightarrow> (nat \<Rightarrow> u64) \<Rightarrow> (nat \<Rightarrow> u64) \<Rightarrow> nat \<Rightarrow> call list" where
  "map_calls d_mem p_memHandle chunk_sizes slot j =
     map (\<lambda>i. cuMemMap (d_mem + chunk_offset chunk_sizes i) (chunk_sizes i) (slot (p_memHandle i)))
       [0..<j]"

definition unmap_calls :: "u64 \<Rightarrow> (nat \<Rightarrow> u64) \<Rightarrow> nat \<Rightarrow> call list" where
  "unmap_calls d_mem chunk_sizes j =
     map (\<lambda>i. cuMemUnmap (d_mem + chunk_offset chunk_sizes i) (chunk_sizes i)) [0..<j]"

definition release_calls :: "(nat \<Rightarrow> nat) \<Rightarrow> (nat \<Rightarrow> u64) \<Rightarrow> nat \<Rightarrow> call list" where
  "release_calls p_memHandle slot j = map (\<lambda>i. cuMemRelease (slot (p_memHandle i))) [0..<j]"

text \<open>The bytes a mapping of \<open>len\<close> bytes at address \<open>addr\<close> occupies, \<open>[addr, addr + len)\<close>.\<close>

definition chunk_interval :: "u64 \<Rightarrow> u64 \<Rightarrow> nat set" where
  "chunk_interval addr len = {unat addr..<unat addr + unat len}"

text \<open>
  The address and the size of a mapping or an unmapping call, to compare the two.
\<close>

definition region :: "call \<Rightarrow> (u64 \<times> u64) option" where
  "region c = (case c of cuMemMap a l h \<Rightarrow> Some (a, l) | cuMemUnmap a l \<Rightarrow> Some (a, l) | _ \<Rightarrow> None)"

text \<open>
  The ceiling of \<open>a / b\<close> and \<open>a\<close> rounded up to a multiple of \<open>b\<close>, on the natural numbers,
  where nothing wraps: what the specification means by \<open>ceil(size / granularity)\<close> and by
  rounding up to the granularity.
\<close>

definition ceil_div :: "nat \<Rightarrow> nat \<Rightarrow> nat" where
  "ceil_div a b = (a + b - 1) div b"

definition round_up :: "nat \<Rightarrow> nat \<Rightarrow> nat" where
  "round_up a b = ceil_div a b * b"

section \<open>Concrete environments\<close>

text \<open>
  A driver that answers every call with success, except the call number \<open>k\<close> of the history
  (counted from 0), which fails. The out-value 1 is a non-null context, handle or address.
\<close>

definition fail_nth :: "nat \<Rightarrow> driver" where
  "fail_nth k hist c = (if length hist = k then (CUDA_ERROR 1, 0) else (CUDA_SUCCESS, 1))"

text \<open>The same with several failing calls: those whose number is in \<open>ks\<close>.\<close>

definition fail_at :: "nat list \<Rightarrow> driver" where
  "fail_at ks hist c =
     (if length hist \<in> set ks then (CUDA_ERROR 1, 0) else (CUDA_SUCCESS, 1))"

text \<open>A driver that never fails.\<close>

definition always_ok :: driver where
  "always_ok hist c = (CUDA_SUCCESS, 1)"

text \<open>The state before any call, with zeroed handle slots.\<close>

definition st0 :: state where
  "st0 = \<lparr>events = [], handles = (\<lambda>_. 0)\<rparr>"

text \<open>The caller's bookkeeping before the allocation.\<close>

definition mem0 :: DeviceMemory where
  "mem0 = \<lparr>mem_device = 0, mem_size = 0, mem_alignedSize = 0, mem_d_mem = 0,
           mem_p_memHandle = [], mem_chunk_sizes = [], mem_num_chunks = 0,
           mem_allocated = False\<rparr>"

section \<open>The chunk loops\<close>

text \<open>
  Each of the four loops adds to the trace the calls for the chunks \<open>i, i + 1, \<dots>\<close> in this
  order and ends as \<open>loop_post\<close> says.
\<close>

lemma loop_post_exit: "\<not> i < n \<Longrightarrow> loop_post failed i n None []"
  by (simp add: loop_post_def)

lemma loop_post_failed:
  "i < n \<Longrightarrow> res \<noteq> CUDA_SUCCESS \<Longrightarrow> failed i \<noteq> SignedOverflow \<Longrightarrow>
     loop_post failed i n (Some (failed i)) [(c, (res, out))]"
  by (simp add: loop_post_def ok_def)

lemma loop_post_overflow:
  "INT_MAX < n \<Longrightarrow> loop_post failed INT_MAX n (Some SignedOverflow) [(c, (CUDA_SUCCESS, out))]"
  by (simp add: loop_post_def ok_def)

lemma loop_post_step:
  assumes "loop_post failed (i + 1) n r new" and "i < n"
  shows "loop_post failed i n r ((c, (CUDA_SUCCESS, out)) # new)"
proof (cases r)
  case None
  with assms show ?thesis by (simp add: loop_post_def ok_def max_def)
next
  case (Some s)
  show ?thesis
  proof (cases "s = SignedOverflow")
    case True
    with Some assms show ?thesis by (simp add: loop_post_def ok_def)
  next
    case False
    with Some assms(1) have "\<exists>k. s = failed k \<and> i + 1 \<le> k \<and> k < n \<and> i + 1 + length new = Suc k \<and>
                 list_all ok (butlast new) \<and> \<not> ok (last new)"
      by (simp add: loop_post_def)
    then obtain k where k: "s = failed k" "i + 1 \<le> k" "k < n" "i + 1 + length new = Suc k"
      "list_all ok (butlast new)" "\<not> ok (last new)"
      by blast
    from k(2,4) have ne: "new \<noteq> []" by auto
    have "i \<le> k \<and> k < n \<and> i + length ((c, (CUDA_SUCCESS, out)) # new) = Suc k \<and>
       list_all ok (butlast ((c, (CUDA_SUCCESS, out)) # new)) \<and>
       \<not> ok (last ((c, (CUDA_SUCCESS, out)) # new))"
      using k ne by (simp add: ok_def)
    with k(1) have "\<exists>k'. s = failed k' \<and> i \<le> k' \<and> k' < n \<and> i + length ((c, (CUDA_SUCCESS, out)) # new) = Suc k' \<and>
       list_all ok (butlast ((c, (CUDA_SUCCESS, out)) # new)) \<and>
       \<not> ok (last ((c, (CUDA_SUCCESS, out)) # new))" by blast
    with False Some show ?thesis by (simp add: loop_post_def)
  qed
qed


lemma invoke_eq:
  "invoke drv c st = ((res, out), st1) \<Longrightarrow>
     events st1 = events st @ [(c, (res, out))] \<and> handles st1 = handles st"
  by (auto simp: invoke_def Let_def)


lemma cpu_set_loop_eq: "cpu_set_loop i hi cpus = cpus \<union> {i..<hi}"
proof (induction i hi cpus rule: cpu_set_loop.induct)
  case (1 i hi cpus)
  note unfold = cpu_set_loop.simps [of i hi cpus]
  show ?case
  proof (cases "i < hi")
    case True
    then have "cpu_set_loop i hi cpus = cpu_set_loop (i + 1) hi (insert i cpus)"
      using unfold by simp
    also have "\<dots> = insert i cpus \<union> {i + 1..<hi}"
      using "1.IH" [OF True] .
    also have "\<dots> = cpus \<union> {i..<hi}"
      using True by auto
    finally show ?thesis .
  next
    case False
    then show ?thesis using unfold by simp
  qed
qed


lemma create_loop_run:
  "create_loop drv dev ph cs n i st = (r, st') \<Longrightarrow>
   \<exists>new. events st' = events st @ new \<and>
     map fst new = map (\<lambda>k. cuMemCreate (ph k) (cs k) dev) [i..<i + length new] \<and>
     loop_post CreateFailed i (unat n) r new"
proof (induction drv dev ph cs n i st arbitrary: r st' rule: create_loop.induct)
  case (1 drv dev ph cs n i st)
  note unfold = create_loop.simps [of drv dev ph cs n i st]
  show ?case
  proof (cases "i < unat n")
    case False
    with "1.prems" unfold have "r = None" "st' = st" by simp_all
    with False show ?thesis by (simp add: loop_post_exit)
  next
    case True
    obtain res h st1 where inv: "invoke drv (cuMemCreate (ph i) (cs i) dev) st = ((res, h), st1)"
      by (metis surj_pair)
    note iv = invoke_eq [OF inv]
    let ?c = "cuMemCreate (ph i) (cs i) dev"
    let ?st2 = "st1\<lparr>handles := (handles st1)(ph i := h)\<rparr>"
    show ?thesis
    proof (cases "res = CUDA_SUCCESS")
      case False
      with True inv "1.prems" unfold have "r = Some (CreateFailed i)" "st' = st1" by simp_all
      with iv loop_post_failed [OF True False, of CreateFailed ?c h] show ?thesis by simp
    next
      case ok: True
      show ?thesis
      proof (cases "i = INT_MAX")
        case True
        with \<open>i < unat n\<close> ok inv "1.prems" unfold have "r = Some SignedOverflow" "st' = ?st2"
          by simp_all
        with True \<open>i < unat n\<close> ok iv loop_post_overflow [of "unat n" CreateFailed ?c h]
        show ?thesis by simp
      next
        case False
        with \<open>i < unat n\<close> ok inv "1.prems" unfold
        have rec: "create_loop drv dev ph cs n (i + 1) ?st2 = (r, st')" by simp
        from "1.IH" [OF \<open>i < unat n\<close> inv [symmetric] refl _ False rec] ok
        obtain new where new: "events st' = events ?st2 @ new"
          "map fst new = map (\<lambda>k. cuMemCreate (ph k) (cs k) dev) [i + 1..<i + 1 + length new]"
          "loop_post CreateFailed (i + 1) (unat n) r new"
          by blast
        have "events st' = events st @ ((?c, (res, h)) # new)" using new(1) iv by simp
        moreover have "map fst ((?c, (res, h)) # new) =
            map (\<lambda>k. cuMemCreate (ph k) (cs k) dev) [i..<i + length ((?c, (res, h)) # new)]"
          using new(2) by (simp add: upt_conv_Cons del: upt_Suc)
        moreover have "loop_post CreateFailed i (unat n) r ((?c, (res, h)) # new)"
          using loop_post_step [OF new(3) \<open>i < unat n\<close>] ok by simp
        ultimately show ?thesis by blast
      qed
    qed
  qed
qed

lemma sum_upt_shift:
  fixes a :: u64
  assumes "i < k"
  shows "a + cs i + sum_list (map cs [i + 1..<k]) = a + sum_list (map cs [i..<k])"
proof -
  from assms have "[i..<k] = i # [i + 1..<k]" by (simp add: upt_conv_Cons)
  then have "sum_list (map cs [i..<k]) = cs i + sum_list (map cs [i + 1..<k])" by simp
  then show ?thesis by (simp add: add.assoc)
qed

lemma map_loop_run:
  "map_loop drv d_mem ph cs n i a st = (r, st') \<Longrightarrow>
   handles st' = handles st \<and>
   (\<exists>new. events st' = events st @ new \<and>
     map fst new = map (\<lambda>k. cuMemMap (d_mem + (a + sum_list (map cs [i..<k]))) (cs k)
                          (handles st (ph k))) [i..<i + length new] \<and>
     loop_post MapFailed i (unat n) r new)"
proof (induction drv d_mem ph cs n i a st arbitrary: r st' rule: map_loop.induct)
  case (1 drv d_mem ph cs n i a st)
  note unfold = map_loop.simps [of drv d_mem ph cs n i a st]
  show ?case
  proof (cases "i < unat n")
    case False
    with "1.prems" unfold have "r = None" "st' = st" by simp_all
    with False show ?thesis by (simp add: loop_post_exit)
  next
    case True
    let ?c = "cuMemMap (d_mem + a) (cs i) (handles st (ph i))"
    obtain res out st1 where inv: "invoke drv ?c st = ((res, out), st1)"
      by (metis surj_pair)
    note iv = invoke_eq [OF inv]
    show ?thesis
    proof (cases "res = CUDA_SUCCESS")
      case False
      with True inv "1.prems" unfold have "r = Some (MapFailed i)" "st' = st1" by simp_all
      with iv loop_post_failed [OF True False, of MapFailed ?c out] show ?thesis by simp
    next
      case ok: True
      show ?thesis
      proof (cases "i = INT_MAX")
        case True
        with \<open>i < unat n\<close> ok inv "1.prems" unfold have "r = Some SignedOverflow" "st' = st1"
          by simp_all
        with True \<open>i < unat n\<close> ok iv loop_post_overflow [of "unat n" MapFailed ?c out]
        show ?thesis by simp
      next
        case False
        with \<open>i < unat n\<close> ok inv "1.prems" unfold
        have rec: "map_loop drv d_mem ph cs n (i + 1) (a + cs i) st1 = (r, st')" by simp
        from "1.IH" [OF \<open>i < unat n\<close> inv [symmetric] refl _ False rec] ok
        obtain new where h: "handles st' = handles st1" and new: "events st' = events st1 @ new"
          "map fst new = map (\<lambda>k. cuMemMap (d_mem + (a + cs i + sum_list (map cs [i + 1..<k])))
              (cs k) (handles st1 (ph k))) [i + 1..<i + 1 + length new]"
          "loop_post MapFailed (i + 1) (unat n) r new"
          by blast
        have "cuMemMap (d_mem + (a + cs i + sum_list (map cs [i + 1..<k]))) (cs k)
                (handles st1 (ph k)) =
              cuMemMap (d_mem + (a + sum_list (map cs [i..<k]))) (cs k) (handles st (ph k))"
          if "k \<in> set [i + 1..<i + 1 + length new]" for k
        proof -
          from that have "i < k" by (simp del: upt_Suc)
          from sum_upt_shift [OF this, of a cs] iv show ?thesis by simp
        qed
        then have "map fst new = map (\<lambda>k. cuMemMap (d_mem + (a + sum_list (map cs [i..<k])))
              (cs k) (handles st (ph k))) [i + 1..<i + 1 + length new]"
          unfolding new(2) by (intro map_cong refl)
        then have "map fst ((?c, (res, out)) # new) =
            map (\<lambda>k. cuMemMap (d_mem + (a + sum_list (map cs [i..<k]))) (cs k)
                   (handles st (ph k))) [i..<i + length ((?c, (res, out)) # new)]"
          by (simp add: upt_conv_Cons del: upt_Suc)
        moreover have "events st' = events st @ ((?c, (res, out)) # new)" using new(1) iv by simp
        moreover have "loop_post MapFailed i (unat n) r ((?c, (res, out)) # new)"
          using loop_post_step [OF new(3) \<open>i < unat n\<close>] ok by simp
        ultimately have "\<exists>new. events st' = events st @ new \<and>
            map fst new = map (\<lambda>k. cuMemMap (d_mem + (a + sum_list (map cs [i..<k]))) (cs k)
                                 (handles st (ph k))) [i..<i + length new] \<and>
            loop_post MapFailed i (unat n) r new"
          by blast
        moreover have "handles st' = handles st" using h iv by simp
        ultimately show ?thesis by (rule conjI [rotated])
      qed
    qed
  qed
qed

lemma unmap_loop_run:
  "unmap_loop drv d_mem cs n i a st = (r, st') \<Longrightarrow>
   handles st' = handles st \<and>
   (\<exists>new. events st' = events st @ new \<and>
     map fst new = map (\<lambda>k. cuMemUnmap (d_mem + (a + sum_list (map cs [i..<k]))) (cs k)) [i..<i + length new] \<and>
     loop_post UnmapFailed i (unat n) r new)"
proof (induction drv d_mem cs n i a st arbitrary: r st' rule: unmap_loop.induct)
  case (1 drv d_mem cs n i a st)
  note unfold = unmap_loop.simps [of drv d_mem cs n i a st]
  show ?case
  proof (cases "i < unat n")
    case False
    with "1.prems" unfold have "r = None" "st' = st" by simp_all
    with False show ?thesis by (simp add: loop_post_exit)
  next
    case True
    let ?c = "cuMemUnmap (d_mem + a) (cs i)"
    obtain res out st1 where inv: "invoke drv ?c st = ((res, out), st1)"
      by (metis surj_pair)
    note iv = invoke_eq [OF inv]
    show ?thesis
    proof (cases "res = CUDA_SUCCESS")
      case False
      with True inv "1.prems" unfold have "r = Some (UnmapFailed i)" "st' = st1" by simp_all
      with iv loop_post_failed [OF True False, of UnmapFailed ?c out] show ?thesis by simp
    next
      case ok: True
      show ?thesis
      proof (cases "i = INT_MAX")
        case True
        with \<open>i < unat n\<close> ok inv "1.prems" unfold have "r = Some SignedOverflow" "st' = st1"
          by simp_all
        with True \<open>i < unat n\<close> ok iv loop_post_overflow [of "unat n" UnmapFailed ?c out]
        show ?thesis by simp
      next
        case False
        with \<open>i < unat n\<close> ok inv "1.prems" unfold
        have rec: "unmap_loop drv d_mem cs n (i + 1) (a + cs i) st1 = (r, st')" by simp
        from "1.IH" [OF \<open>i < unat n\<close> inv [symmetric] refl _ False rec] ok
        obtain new where h: "handles st' = handles st1" and new: "events st' = events st1 @ new"
          "map fst new = map (\<lambda>k. cuMemUnmap (d_mem + (a + cs i + sum_list (map cs [i + 1..<k])))
              (cs k)) [i + 1..<i + 1 + length new]"
          "loop_post UnmapFailed (i + 1) (unat n) r new"
          by blast
        have "cuMemUnmap (d_mem + (a + cs i + sum_list (map cs [i + 1..<k]))) (cs k) =
              cuMemUnmap (d_mem + (a + sum_list (map cs [i..<k]))) (cs k)"
          if "k \<in> set [i + 1..<i + 1 + length new]" for k
        proof -
          from that have "i < k" by (simp del: upt_Suc)
          from sum_upt_shift [OF this, of a cs] iv show ?thesis by simp
        qed
        then have "map fst new = map (\<lambda>k. cuMemUnmap (d_mem + (a + sum_list (map cs [i..<k])))
              (cs k)) [i + 1..<i + 1 + length new]"
          unfolding new(2) by (intro map_cong refl)
        then have "map fst ((?c, (res, out)) # new) =
            map (\<lambda>k. cuMemUnmap (d_mem + (a + sum_list (map cs [i..<k]))) (cs k)) [i..<i + length ((?c, (res, out)) # new)]"
          by (simp add: upt_conv_Cons del: upt_Suc)
        moreover have "events st' = events st @ ((?c, (res, out)) # new)" using new(1) iv by simp
        moreover have "loop_post UnmapFailed i (unat n) r ((?c, (res, out)) # new)"
          using loop_post_step [OF new(3) \<open>i < unat n\<close>] ok by simp
        ultimately have "\<exists>new. events st' = events st @ new \<and>
            map fst new = map (\<lambda>k. cuMemUnmap (d_mem + (a + sum_list (map cs [i..<k]))) (cs k)) [i..<i + length new] \<and>
            loop_post UnmapFailed i (unat n) r new"
          by blast
        moreover have "handles st' = handles st" using h iv by simp
        ultimately show ?thesis by (rule conjI [rotated])
      qed
    qed
  qed
qed


lemma release_loop_run:
  "release_loop drv ph n i st = (r, st') \<Longrightarrow>
   handles st' = handles st \<and>
   (\<exists>new. events st' = events st @ new \<and>
     map fst new = map (\<lambda>k. cuMemRelease (handles st (ph k))) [i..<i + length new] \<and>
     loop_post ReleaseFailed i (unat n) r new)"
proof (induction drv ph n i st arbitrary: r st' rule: release_loop.induct)
  case (1 drv ph n i st)
  note unfold = release_loop.simps [of drv ph n i st]
  show ?case
  proof (cases "i < unat n")
    case False
    with "1.prems" unfold have "r = None" "st' = st" by simp_all
    with False show ?thesis by (simp add: loop_post_exit)
  next
    case True
    let ?c = "cuMemRelease (handles st (ph i))"
    obtain res out st1 where inv: "invoke drv ?c st = ((res, out), st1)"
      by (metis surj_pair)
    note iv = invoke_eq [OF inv]
    show ?thesis
    proof (cases "res = CUDA_SUCCESS")
      case False
      with True inv "1.prems" unfold have "r = Some (ReleaseFailed i)" "st' = st1" by simp_all
      with iv loop_post_failed [OF True False, of ReleaseFailed ?c out] show ?thesis by simp
    next
      case ok: True
      show ?thesis
      proof (cases "i = INT_MAX")
        case True
        with \<open>i < unat n\<close> ok inv "1.prems" unfold have "r = Some SignedOverflow" "st' = st1"
          by simp_all
        with True \<open>i < unat n\<close> ok iv loop_post_overflow [of "unat n" ReleaseFailed ?c out]
        show ?thesis by simp
      next
        case False
        with \<open>i < unat n\<close> ok inv "1.prems" unfold
        have rec: "release_loop drv ph n (i + 1) st1 = (r, st')" by simp
        from "1.IH" [OF \<open>i < unat n\<close> inv [symmetric] refl _ False rec] ok
        obtain new where h: "handles st' = handles st1" and new: "events st' = events st1 @ new"
          "map fst new = map (\<lambda>k. cuMemRelease (handles st1 (ph k))) [i + 1..<i + 1 + length new]"
          "loop_post ReleaseFailed (i + 1) (unat n) r new"
          by blast
        from new(2) iv have "map fst ((?c, (res, out)) # new) =
            map (\<lambda>k. cuMemRelease (handles st (ph k))) [i..<i + length ((?c, (res, out)) # new)]"
          by (simp add: upt_conv_Cons del: upt_Suc)
        moreover have "events st' = events st @ ((?c, (res, out)) # new)" using new(1) iv by simp
        moreover have "loop_post ReleaseFailed i (unat n) r ((?c, (res, out)) # new)"
          using loop_post_step [OF new(3) \<open>i < unat n\<close>] ok by simp
        ultimately have "\<exists>new. events st' = events st @ new \<and>
            map fst new = map (\<lambda>k. cuMemRelease (handles st (ph k))) [i..<i + length new] \<and>
            loop_post ReleaseFailed i (unat n) r new"
          by blast
        moreover have "handles st' = handles st" using h iv by simp
        ultimately show ?thesis by (rule conjI [rotated])
      qed
    qed
  qed
qed

section \<open>The shape of a run of create_and_map and of unmap_and_release\<close>

lemma create_and_map_run:
  assumes run: "create_and_map drv dev sz d_mem ph cs n st = (s, st')"
  shows "\<exists>c m a rc rm. events st' = events (prologue drv dev st) @ c @ m @ a \<and>
      map fst c = create_calls dev ph cs (length c) \<and>
      loop_post CreateFailed 0 (unat n) rc c \<and>
      map fst m = map_calls d_mem ph cs (handles st') (length m) \<and>
      (case rc of
         Some h \<Rightarrow> s = h \<and> m = [] \<and> a = []
       | None \<Rightarrow> loop_post MapFailed 0 (unat n) rm m \<and>
           (case rm of
              Some h \<Rightarrow> s = h \<and> a = []
            | None \<Rightarrow> \<exists>r. a = [(cuMemSetAccess d_mem sz dev, r)] \<and>
                s = (if fst r \<noteq> CUDA_SUCCESS then AccessFailed else Completed)))"
proof -
  let ?st0 = "prologue drv dev st"
  obtain rc st1 where cl: "create_loop drv dev ph cs n 0 ?st0 = (rc, st1)"
    by (metis surj_pair)
  from create_loop_run [OF cl] obtain c where c: "events st1 = events ?st0 @ c"
    "map fst c = create_calls dev ph cs (length c)" "loop_post CreateFailed 0 (unat n) rc c"
    by (auto simp: create_calls_def)
  show ?thesis
  proof (cases rc)
    case (Some h)
    with run cl have "s = h" "st' = st1" by (simp_all add: create_and_map_def)
    with c Some have "events st' = events ?st0 @ c @ [] @ [] \<and>
      map fst c = create_calls dev ph cs (length c) \<and>
      loop_post CreateFailed 0 (unat n) rc c \<and>
      map fst [] = map_calls d_mem ph cs (handles st') (length ([]::event list)) \<and>
      (case rc of
         Some h \<Rightarrow> s = h \<and> ([]::event list) = [] \<and> ([]::event list) = []
       | None \<Rightarrow> loop_post MapFailed 0 (unat n) None [] \<and>
           (case None of
              Some h \<Rightarrow> s = h \<and> ([]::event list) = []
            | None \<Rightarrow> \<exists>r. ([]::event list) = [(cuMemSetAccess d_mem sz dev, r)] \<and>
                s = (if fst r \<noteq> CUDA_SUCCESS then AccessFailed else Completed)))"
      by (simp add: map_calls_def)
    then show ?thesis by blast
  next
    case None
    obtain rm st2 where ml: "map_loop drv d_mem ph cs n 0 0 st1 = (rm, st2)"
      by (metis surj_pair)
    from map_loop_run [OF ml] obtain m where h2: "handles st2 = handles st1"
      and m: "events st2 = events st1 @ m"
      "map fst m = map_calls d_mem ph cs (handles st1) (length m)"
      "loop_post MapFailed 0 (unat n) rm m"
      by (auto simp: map_calls_def chunk_offset_def)
    show ?thesis
    proof (cases rm)
      case (Some h)
      with run cl ml None have "s = h" "st' = st2" by (simp_all add: create_and_map_def)
      with c m h2 None Some have "events st' = events ?st0 @ c @ m @ [] \<and>
        map fst c = create_calls dev ph cs (length c) \<and>
        loop_post CreateFailed 0 (unat n) rc c \<and>
        map fst m = map_calls d_mem ph cs (handles st') (length m) \<and>
        (case rc of
           Some h \<Rightarrow> s = h \<and> m = [] \<and> ([]::event list) = []
         | None \<Rightarrow> loop_post MapFailed 0 (unat n) rm m \<and>
             (case rm of
                Some h \<Rightarrow> s = h \<and> ([]::event list) = []
              | None \<Rightarrow> \<exists>r. ([]::event list) = [(cuMemSetAccess d_mem sz dev, r)] \<and>
                  s = (if fst r \<noteq> CUDA_SUCCESS then AccessFailed else Completed)))"
        by simp
      then show ?thesis by blast
    next
      case rmNone: None
      let ?a = "cuMemSetAccess d_mem sz dev"
      obtain res out st3 where inv: "invoke drv ?a st2 = ((res, out), st3)"
        by (metis surj_pair)
      note iv = invoke_eq [OF inv]
      from run cl ml None rmNone inv
      have "s = (if res \<noteq> CUDA_SUCCESS then AccessFailed else Completed)" "st' = st3"
        by (simp_all add: create_and_map_def split: if_splits)
      with c m h2 None rmNone iv have "events st' = events ?st0 @ c @ m @ [(?a, (res, out))] \<and>
        map fst c = create_calls dev ph cs (length c) \<and>
        loop_post CreateFailed 0 (unat n) rc c \<and>
        map fst m = map_calls d_mem ph cs (handles st') (length m) \<and>
        (case rc of
           Some h \<Rightarrow> s = h \<and> m = [] \<and> [(?a, (res, out))] = []
         | None \<Rightarrow> loop_post MapFailed 0 (unat n) rm m \<and>
             (case rm of
                Some h \<Rightarrow> s = h \<and> [(?a, (res, out))] = []
              | None \<Rightarrow> \<exists>r. [(?a, (res, out))] = [(cuMemSetAccess d_mem sz dev, r)] \<and>
                  s = (if fst r \<noteq> CUDA_SUCCESS then AccessFailed else Completed)))"
        by simp
      then show ?thesis by blast
    qed
  qed
qed

lemma loop_post_length: "loop_post failed 0 n r new \<Longrightarrow> length new \<le> n"
  by (auto simp: loop_post_def split: option.splits if_splits)

lemma loop_post_None: "loop_post failed 0 n None new \<Longrightarrow> length new = n \<and> list_all ok new"
  by (simp add: loop_post_def)

lemma loop_post_Some:
  "loop_post failed i n (Some s) new \<Longrightarrow> s = SignedOverflow \<or> (\<exists>k. s = failed k)"
  by (auto simp: loop_post_def split: if_splits)

lemma loop_post_CreateFailed:
  "loop_post CreateFailed 0 n (Some (CreateFailed k)) new \<Longrightarrow>
     k < n \<and> length new = Suc k \<and> list_all ok (butlast new) \<and> \<not> ok (last new)"
  by (auto simp: loop_post_def)

lemma loop_post_MapFailed:
  "loop_post MapFailed 0 n (Some (MapFailed k)) new \<Longrightarrow>
     k < n \<and> length new = Suc k \<and> list_all ok (butlast new) \<and> \<not> ok (last new)"
  by (auto simp: loop_post_def)

lemma loop_post_failure_last:
  assumes "loop_post failed 0 n r new" and "i < length new" and "\<not> ok (new ! i)"
  shows "Suc i = length new"
proof (rule ccontr)
  assume "Suc i \<noteq> length new"
  with assms(2) have lt: "i < length (butlast new)" by simp
  then have nth: "butlast new ! i = new ! i" by (simp add: nth_butlast)
  have "list_all ok (butlast new)"
  proof (cases r)
    case None
    with assms(1) have "list_all ok new" by (simp add: loop_post_def)
    then show ?thesis by (metis in_set_butlastD list_all_iff)
  next
    case (Some s)
    with assms(1) have "list_all ok new \<or> list_all ok (butlast new)"
      by (auto simp: loop_post_def split: if_splits)
    then show ?thesis by (metis in_set_butlastD list_all_iff)
  qed
  with lt nth assms(3) show False by (metis list_all_length)
qed

lemma prologue_events:
  "\<exists>r1 r2. events (prologue drv dev st) =
     events (ensure_context drv dev st) @
       [(gettid, r1), (sched_setaffinity (snd r1) (affinity_mask dev), r2)]"
  by (simp add: prologue_def set_cpu_affinity_for_gpu_def invoke_def Let_def split: prod.splits)

lemma unmap_and_release_run:
  assumes run: "unmap_and_release drv dev sz d_mem ph cs n st = (s, st')"
  shows "\<exists>u r ru rr. events st' = events (ensure_context drv dev st) @ u @ r \<and>
      map fst u = unmap_calls d_mem cs (length u) \<and>
      loop_post UnmapFailed 0 (unat n) ru u \<and>
      map fst r = release_calls ph (handles st) (length r) \<and>
      handles st' = handles st \<and>
      (case ru of
         Some h \<Rightarrow> s = h \<and> r = []
       | None \<Rightarrow> loop_post ReleaseFailed 0 (unat n) rr r \<and>
           (case rr of Some h \<Rightarrow> s = h | None \<Rightarrow> s = Completed))"
proof -
  let ?st0 = "ensure_context drv dev st"
  have h0: "handles ?st0 = handles st"
    by (simp add: ensure_context_def invoke_def Let_def split: prod.splits)
  obtain ru st1 where ul: "unmap_loop drv d_mem cs n 0 0 ?st0 = (ru, st1)"
    by (metis surj_pair)
  from unmap_loop_run [OF ul] obtain u where h1: "handles st1 = handles ?st0"
    and u: "events st1 = events ?st0 @ u"
    "map fst u = unmap_calls d_mem cs (length u)" "loop_post UnmapFailed 0 (unat n) ru u"
    by (auto simp: unmap_calls_def chunk_offset_def)
  show ?thesis
  proof (cases ru)
    case (Some h)
    with run ul have "s = h" "st' = st1" by (simp_all add: unmap_and_release_def)
    with u h0 h1 Some have "events st' = events ?st0 @ u @ [] \<and>
      map fst u = unmap_calls d_mem cs (length u) \<and>
      loop_post UnmapFailed 0 (unat n) ru u \<and>
      map fst [] = release_calls ph (handles st) (length ([]::event list)) \<and>
      handles st' = handles st \<and>
      (case ru of
         Some h \<Rightarrow> s = h \<and> ([]::event list) = []
       | None \<Rightarrow> loop_post ReleaseFailed 0 (unat n) None [] \<and>
           (case None of Some h \<Rightarrow> s = h | None \<Rightarrow> s = Completed))"
      by (simp add: release_calls_def)
    then show ?thesis by blast
  next
    case None
    obtain rr st2 where rl: "release_loop drv ph n 0 st1 = (rr, st2)"
      by (metis surj_pair)
    from release_loop_run [OF rl] obtain r where h2: "handles st2 = handles st1"
      and r: "events st2 = events st1 @ r"
      "map fst r = release_calls ph (handles st1) (length r)"
      "loop_post ReleaseFailed 0 (unat n) rr r"
      by (auto simp: release_calls_def)
    from run ul rl None have "s = (case rr of Some h \<Rightarrow> h | None \<Rightarrow> Completed)" "st' = st2"
      by (simp_all add: unmap_and_release_def split: option.splits)
    with u r h0 h1 h2 None have "events st' = events ?st0 @ u @ r \<and>
      map fst u = unmap_calls d_mem cs (length u) \<and>
      loop_post UnmapFailed 0 (unat n) ru u \<and>
      map fst r = release_calls ph (handles st) (length r) \<and>
      handles st' = handles st \<and>
      (case ru of
         Some h \<Rightarrow> s = h \<and> r = []
       | None \<Rightarrow> loop_post ReleaseFailed 0 (unat n) rr r \<and>
           (case rr of Some h \<Rightarrow> s = h | None \<Rightarrow> s = Completed))"
      by (simp split: option.splits)
    then show ?thesis by blast
  qed
qed

section \<open>The handle slots after the creation loop\<close>

lemma create_loop_untouched:
  "create_loop drv dev ph cs n i st = (r, st') \<Longrightarrow> events st' = events st @ new \<Longrightarrow>
     p \<notin> ph ` {i..<i + length new} \<Longrightarrow> handles st' p = handles st p"
proof (induction drv dev ph cs n i st arbitrary: r st' new rule: create_loop.induct)
  case (1 drv dev ph cs n i st)
  note unfold = create_loop.simps [of drv dev ph cs n i st]
  show ?case
  proof (cases "i < unat n")
    case False
    with "1.prems"(1) unfold show ?thesis by simp
  next
    case True
    obtain res h st1 where inv: "invoke drv (cuMemCreate (ph i) (cs i) dev) st = ((res, h), st1)"
      by (metis surj_pair)
    note iv = invoke_eq [OF inv]
    let ?e = "(cuMemCreate (ph i) (cs i) dev, (res, h))"
    let ?st2 = "st1\<lparr>handles := (handles st1)(ph i := h)\<rparr>"
    show ?thesis
    proof (cases "res = CUDA_SUCCESS")
      case False
      with True inv "1.prems"(1) unfold have "st' = st1" by simp
      with iv show ?thesis by simp
    next
      case ok: True
      show ?thesis
      proof (cases "i = INT_MAX")
        case True
        with \<open>i < unat n\<close> ok inv "1.prems"(1) unfold have st': "st' = ?st2" by simp
        with iv "1.prems"(2) have "new = [?e]" by simp
        with "1.prems"(3) have "p \<noteq> ph i" by auto
        with st' iv show ?thesis by simp
      next
        case False
        with \<open>i < unat n\<close> ok inv "1.prems"(1) unfold
        have rec: "create_loop drv dev ph cs n (i + 1) ?st2 = (r, st')" by simp
        from create_loop_run [OF rec] obtain new' where new': "events st' = events ?st2 @ new'"
          by blast
        with iv "1.prems"(2) have new: "new = ?e # new'" by simp
        with "1.prems"(3) have "p \<noteq> ph i" by auto
        moreover from new "1.prems"(3) have "p \<notin> ph ` {i + 1..<i + 1 + length new'}" by auto
        from "1.IH" [OF \<open>i < unat n\<close> inv [symmetric] refl _ False rec new' this] ok
        have "handles st' p = handles ?st2 p" by simp
        ultimately show ?thesis using iv by simp
      qed
    qed
  qed
qed

lemma create_loop_handles:
  "create_loop drv dev ph cs n i st = (r, st') \<Longrightarrow> events st' = events st @ new \<Longrightarrow>
     inj_on ph {i..<i + length new} \<Longrightarrow> j < length new \<Longrightarrow> ok (new ! j) \<Longrightarrow>
     handles st' (ph (i + j)) = snd (snd (new ! j))"
proof (induction drv dev ph cs n i st arbitrary: r st' new j rule: create_loop.induct)
  case (1 drv dev ph cs n i st)
  note unfold = create_loop.simps [of drv dev ph cs n i st]
  show ?case
  proof (cases "i < unat n")
    case False
    with "1.prems"(1) unfold have "st' = st" by simp
    with "1.prems"(2,4) show ?thesis by simp
  next
    case True
    obtain res h st1 where inv: "invoke drv (cuMemCreate (ph i) (cs i) dev) st = ((res, h), st1)"
      by (metis surj_pair)
    note iv = invoke_eq [OF inv]
    let ?e = "(cuMemCreate (ph i) (cs i) dev, (res, h))"
    let ?st2 = "st1\<lparr>handles := (handles st1)(ph i := h)\<rparr>"
    show ?thesis
    proof (cases "res = CUDA_SUCCESS")
      case False
      with True inv "1.prems"(1) unfold have "st' = st1" by simp
      with iv "1.prems"(2) have "new = [?e]" by simp
      with "1.prems"(4,5) False show ?thesis by (simp add: ok_def)
    next
      case ok: True
      show ?thesis
      proof (cases "i = INT_MAX")
        case True
        with \<open>i < unat n\<close> ok inv "1.prems"(1) unfold have st': "st' = ?st2" by simp
        with iv "1.prems"(2) have "new = [?e]" by simp
        with "1.prems"(4) st' show ?thesis by simp
      next
        case False
        with \<open>i < unat n\<close> ok inv "1.prems"(1) unfold
        have rec: "create_loop drv dev ph cs n (i + 1) ?st2 = (r, st')" by simp
        from create_loop_run [OF rec] obtain new' where new': "events st' = events ?st2 @ new'"
          by blast
        with iv "1.prems"(2) have new: "new = ?e # new'" by simp
        have inj': "inj_on ph {i + 1..<i + 1 + length new'}"
        proof (rule inj_on_subset [OF "1.prems"(3)])
          show "{i + 1..<i + 1 + length new'} \<subseteq> {i..<i + length new}" using new by auto
        qed
        show ?thesis
        proof (cases j)
          case 0
          have "ph i \<notin> ph ` {i + 1..<i + 1 + length new'}"
          proof
            assume "ph i \<in> ph ` {i + 1..<i + 1 + length new'}"
            then obtain k where k: "k \<in> {i + 1..<i + 1 + length new'}" "ph i = ph k" by auto
            with new have "k \<in> {i..<i + length new}" "i \<in> {i..<i + length new}" by auto
            from inj_onD [OF "1.prems"(3) k(2) this(2,1)] have "i = k" .
            with k(1) show False by simp
          qed
          from create_loop_untouched [OF rec new' this]
          have "handles st' (ph i) = h" by simp
          with 0 new show ?thesis by simp
        next
          case (Suc j')
          with "1.prems"(4,5) new have "j' < length new'" "ok (new' ! j')" by simp_all
          from "1.IH" [OF \<open>i < unat n\<close> inv [symmetric] refl _ False rec new' inj' this] ok
          have "handles st' (ph (i + 1 + j')) = snd (snd (new' ! j'))" by simp
          with Suc new show ?thesis by simp
        qed
      qed
    qed
  qed
qed

section \<open>Failures during create_and_map\<close>

lemma prologue_handles: "handles (prologue drv dev st) = handles st"
  by (simp add: prologue_def set_cpu_affinity_for_gpu_def ensure_context_def invoke_def Let_def
      split: prod.splits)

lemma create_and_map_CreateFailedD:
  assumes run: "create_and_map drv dev sz d_mem ph cs n st = (CreateFailed k, st')"
  shows "create_loop drv dev ph cs n 0 (prologue drv dev st) = (Some (CreateFailed k), st')"
proof -
  obtain rc st1 where cl: "create_loop drv dev ph cs n 0 (prologue drv dev st) = (rc, st1)"
    by (metis surj_pair)
  show ?thesis
  proof (cases rc)
    case (Some h)
    with run cl show ?thesis by (simp add: create_and_map_def)
  next
    case None
    obtain rm st2 where ml: "map_loop drv d_mem ph cs n 0 0 st1 = (rm, st2)"
      by (metis surj_pair)
    show ?thesis
    proof (cases rm)
      case (Some h)
      with run cl ml None have "h = CreateFailed k" by (simp add: create_and_map_def)
      with map_loop_run [OF ml] Some loop_post_Some [of MapFailed 0 "unat n" h]
      show ?thesis by auto
    next
      case rmNone: None
      with run cl ml None show ?thesis
        by (simp add: create_and_map_def split: prod.splits if_splits)
    qed
  qed
qed

text \<open>
  C4. If the creation of the handle of chunk \<open>k\<close> fails, \<^verbatim>\<open>create_and_map\<close> returns at once:
  after the context and affinity calls the only driver calls are the creations for the
  chunks 0 to \<open>k\<close>, in this order, of which all but the last succeeded. So the chunks after
  \<open>k\<close> are never created, none is mapped, none is released and no access is set. The slots of
  the chunks before \<open>k\<close> (for pairwise distinct slot addresses) hold the handles the driver
  returned; a slot that belongs to none of the chunks 0 to \<open>k\<close> is unchanged.
\<close>

theorem create_failure_keeps_earlier_handles:
  assumes run: "create_and_map drv dev sz d_mem ph cs n st = (CreateFailed k, st')"
  shows "k < unat n \<and>
    (\<exists>c. events st' = events (prologue drv dev st) @ c \<and>
       map fst c = create_calls dev ph cs (Suc k) \<and>
       list_all ok (butlast c) \<and> \<not> ok (last c) \<and>
       (inj_on ph {0..<Suc k} \<longrightarrow> (\<forall>i<k. handles st' (ph i) = snd (snd (c ! i)))) \<and>
       (\<forall>p. p \<notin> ph ` {0..<Suc k} \<longrightarrow> handles st' p = handles st p))"
proof -
  let ?st0 = "prologue drv dev st"
  note cl = create_and_map_CreateFailedD [OF run]
  from create_loop_run [OF cl] obtain c where c: "events st' = events ?st0 @ c"
    "map fst c = create_calls dev ph cs (length c)"
    "loop_post CreateFailed 0 (unat n) (Some (CreateFailed k)) c"
    by (auto simp: create_calls_def)
  from loop_post_CreateFailed [OF c(3)] have k: "k < unat n" "length c = Suc k"
    "list_all ok (butlast c)" "\<not> ok (last c)" by simp_all
  have slots: "handles st' (ph i) = snd (snd (c ! i))" if inj: "inj_on ph {0..<Suc k}" and "i < k" for i
  proof -
    from that k(2) have i: "i < length c" by simp
    with \<open>i < k\<close> k(2) have "butlast c ! i = c ! i" "i < length (butlast c)"
      by (simp_all add: nth_butlast)
    with k(3) have "ok (c ! i)" by (metis list_all_length)
    from create_loop_handles [OF cl c(1) _ i this] inj k(2) show ?thesis by simp
  qed
  have untouched: "handles st' p = handles st p" if "p \<notin> ph ` {0..<Suc k}" for p
    using create_loop_untouched [OF cl c(1), of p] that k(2) by (simp add: prologue_handles)
  from k c(1,2) slots untouched show ?thesis by auto
qed

theorem create_failure_keeps_earlier_handles_witness:
  "create_and_map (fail_nth 5) 0 10485760 0 (\<lambda>i. i) (\<lambda>i. 2097152) 5 st0 =
     (CreateFailed 2, snd (create_and_map (fail_nth 5) 0 10485760 0 (\<lambda>i. i) (\<lambda>i. 2097152) 5 st0)) \<and>
   inj_on (\<lambda>i::nat. i) {0..<Suc 2} \<and>
   (\<exists>c. events (snd (create_and_map (fail_nth 5) 0 10485760 0 (\<lambda>i. i) (\<lambda>i. 2097152) 5 st0)) =
          events (prologue (fail_nth 5) 0 st0) @ c \<and>
        map fst c = create_calls 0 (\<lambda>i. i) (\<lambda>i. 2097152) (Suc 2) \<and>
        list_all ok (butlast c) \<and> \<not> ok (last c) \<and>
        (\<forall>i<2. handles (snd (create_and_map (fail_nth 5) 0 10485760 0 (\<lambda>i. i) (\<lambda>i. 2097152) 5 st0)) i
            = snd (snd (c ! i))))"
proof -
  let ?run = "create_and_map (fail_nth 5) 0 10485760 0 (\<lambda>i. i) (\<lambda>i. 2097152) 5 st0"
  have "fst ?run = CreateFailed 2"
    by (simp add: create_and_map_def prologue_def ensure_context_def set_cpu_affinity_for_gpu_def
        invoke_def Let_def create_loop.simps map_loop.simps INT_MAX_def fail_nth_def st0_def)
  then have run: "?run = (CreateFailed 2, snd ?run)" by (simp add: prod_eq_iff)
  have inj: "inj_on (\<lambda>i::nat. i) {0..<Suc 2}" by simp
  from create_failure_keeps_earlier_handles [OF run] inj run show ?thesis by blast
qed

text \<open>
  C10. With \<^verbatim>\<open>num_chunks = 0\<close> neither routine issues a call for a chunk:
  \<^verbatim>\<open>create_and_map\<close> follows the context and affinity calls with the one access call over
  \<open>sz\<close> bytes at the base address, and \<^verbatim>\<open>unmap_and_release\<close> ends after ensuring the context.
\<close>

theorem zero_chunks_only_access:
  "map fst (events (snd (create_and_map drv dev sz d_mem ph cs 0 st))) =
     map fst (events (prologue drv dev st)) @ [cuMemSetAccess d_mem sz dev] \<and>
   unmap_and_release drv dev sz d_mem ph cs 0 st = (Completed, ensure_context drv dev st)"
  by (simp add: create_and_map_def unmap_and_release_def invoke_def Let_def
      create_loop.simps [of _ _ _ _ 0] map_loop.simps [of _ _ _ _ 0]
      unmap_loop.simps [of _ _ _ 0] release_loop.simps [of _ _ 0] split: prod.splits)

text \<open>
  C6. If the mapping of chunk \<open>j\<close> fails, \<^verbatim>\<open>create_and_map\<close> returns at once: all
  \<^verbatim>\<open>num_chunks\<close> handles were created before, the chunks before \<open>j\<close> were mapped with
  success, the failing call for chunk \<open>j\<close> is the last call. No later chunk is mapped, no
  handle is released, no access is set.
\<close>

theorem map_failure_leaves_partial_mapping:
  assumes run: "create_and_map drv dev sz d_mem ph cs n st = (MapFailed j, st')"
  shows "j < unat n \<and>
    (\<exists>c m. events st' = events (prologue drv dev st) @ c @ m \<and>
       map fst c = create_calls dev ph cs (unat n) \<and> list_all ok c \<and>
       map fst m = map_calls d_mem ph cs (handles st') (Suc j) \<and>
       list_all ok (butlast m) \<and> \<not> ok (last m))"
proof -
  from create_and_map_run [OF run] obtain c m a rc rm where
    ev: "events st' = events (prologue drv dev st) @ c @ m @ a"
    and c: "map fst c = create_calls dev ph cs (length c)" "loop_post CreateFailed 0 (unat n) rc c"
    and m: "map fst m = map_calls d_mem ph cs (handles st') (length m)"
    and rest: "(case rc of
         Some h \<Rightarrow> MapFailed j = h \<and> m = [] \<and> a = []
       | None \<Rightarrow> loop_post MapFailed 0 (unat n) rm m \<and>
           (case rm of
              Some h \<Rightarrow> MapFailed j = h \<and> a = []
            | None \<Rightarrow> \<exists>r. a = [(cuMemSetAccess d_mem sz dev, r)] \<and>
                MapFailed j = (if fst r \<noteq> CUDA_SUCCESS then AccessFailed else Completed)))"
    by blast
  have rc: "rc = None"
  proof (cases rc)
    case (Some h)
    with rest c(2) loop_post_Some [of CreateFailed 0 "unat n" h c] show ?thesis by auto
  qed simp
  with rest have lm: "loop_post MapFailed 0 (unat n) rm m" by simp
  have rm: "rm = Some (MapFailed j)" and a: "a = []"
    using rest rc by (cases rm; auto split: if_splits)+
  from loop_post_None c(2) rc have cn: "length c = unat n" "list_all ok c" by blast+
  from loop_post_MapFailed lm rm have mj: "j < unat n" "length m = Suc j"
    "list_all ok (butlast m)" "\<not> ok (last m)" by blast+
  from ev a c(1) m cn mj show ?thesis by auto
qed

theorem map_failure_leaves_partial_mapping_witness:
  "create_and_map (fail_nth 9) 0 10485760 0 (\<lambda>i. i) (\<lambda>i. 2097152) 5 st0 =
     (MapFailed 1, snd (create_and_map (fail_nth 9) 0 10485760 0 (\<lambda>i. i) (\<lambda>i. 2097152) 5 st0)) \<and>
   1 < unat (5 :: u64) \<and>
   (\<exists>c m. events (snd (create_and_map (fail_nth 9) 0 10485760 0 (\<lambda>i. i) (\<lambda>i. 2097152) 5 st0)) =
       events (prologue (fail_nth 9) 0 st0) @ c @ m \<and>
       map fst c = create_calls 0 (\<lambda>i. i) (\<lambda>i. 2097152) (unat (5 :: u64)) \<and> list_all ok c \<and>
       map fst m = map_calls 0 (\<lambda>i. i) (\<lambda>i. 2097152)
         (handles (snd (create_and_map (fail_nth 9) 0 10485760 0 (\<lambda>i. i) (\<lambda>i. 2097152) 5 st0)))
         (Suc 1) \<and>
       list_all ok (butlast m) \<and> \<not> ok (last m))"
proof -
  let ?run = "create_and_map (fail_nth 9) 0 10485760 0 (\<lambda>i. i) (\<lambda>i. 2097152) 5 st0"
  have "fst ?run = MapFailed 1"
    by (simp add: create_and_map_def prologue_def ensure_context_def set_cpu_affinity_for_gpu_def
        invoke_def Let_def create_loop.simps map_loop.simps INT_MAX_def fail_nth_def st0_def)
  then have run: "?run = (MapFailed 1, snd ?run)" by (simp add: prod_eq_iff)
  from map_failure_leaves_partial_mapping [OF run] run show ?thesis by blast
qed

text \<open>
  C9. After the context and affinity calls the trace of \<^verbatim>\<open>create_and_map\<close> is: creations,
  then mappings, then at most one access call. The access call is
  \<^verbatim>\<open>cuMemSetAccess(d_mem, size)\<close> for the device, it is issued only when all
  \<^verbatim>\<open>num_chunks\<close> creations and all \<^verbatim>\<open>num_chunks\<close> mappings have succeeded, and it is the last
  call whether it succeeds or fails: a failed grant is followed by no unmapping and no
  release.
\<close>

theorem access_granted_once_after_all_maps:
  assumes run: "create_and_map drv dev sz d_mem ph cs n st = (s, st')"
  shows "\<exists>c m a. events st' = events (prologue drv dev st) @ c @ m @ a \<and>
     map fst c = create_calls dev ph cs (length c) \<and>
     map fst m = map_calls d_mem ph cs (handles st') (length m) \<and>
     (a = [] \<and> s \<noteq> AccessFailed \<and> s \<noteq> Completed \<or>
      (\<exists>r. a = [(cuMemSetAccess d_mem sz dev, r)] \<and>
         length c = unat n \<and> list_all ok c \<and> length m = unat n \<and> list_all ok m \<and>
         s = (if fst r = CUDA_SUCCESS then Completed else AccessFailed)))"
proof -
  from create_and_map_run [OF run] obtain c m a rc rm where
    ev: "events st' = events (prologue drv dev st) @ c @ m @ a"
    and c: "map fst c = create_calls dev ph cs (length c)" "loop_post CreateFailed 0 (unat n) rc c"
    and m: "map fst m = map_calls d_mem ph cs (handles st') (length m)"
    and rest: "(case rc of
         Some h \<Rightarrow> s = h \<and> m = [] \<and> a = []
       | None \<Rightarrow> loop_post MapFailed 0 (unat n) rm m \<and>
           (case rm of
              Some h \<Rightarrow> s = h \<and> a = []
            | None \<Rightarrow> \<exists>r. a = [(cuMemSetAccess d_mem sz dev, r)] \<and>
                s = (if fst r \<noteq> CUDA_SUCCESS then AccessFailed else Completed)))"
    by blast
  have "a = [] \<and> s \<noteq> AccessFailed \<and> s \<noteq> Completed \<or>
      (\<exists>r. a = [(cuMemSetAccess d_mem sz dev, r)] \<and>
         length c = unat n \<and> list_all ok c \<and> length m = unat n \<and> list_all ok m \<and>
         s = (if fst r = CUDA_SUCCESS then Completed else AccessFailed))"
  proof (cases rc)
    case (Some h)
    with rest c(2) loop_post_Some [of CreateFailed 0 "unat n" h c] show ?thesis by auto
  next
    case None
    with rest have lm: "loop_post MapFailed 0 (unat n) rm m" by simp
    from loop_post_None c(2) None have cn: "length c = unat n" "list_all ok c" by blast+
    show ?thesis
    proof (cases rm)
      case (Some h)
      with rest None lm loop_post_Some [of MapFailed 0 "unat n" h m] show ?thesis by auto
    next
      case rmNone: None
      from loop_post_None lm rmNone have mn: "length m = unat n" "list_all ok m" by blast+
      from rest None rmNone obtain r where "a = [(cuMemSetAccess d_mem sz dev, r)]"
        "s = (if fst r \<noteq> CUDA_SUCCESS then AccessFailed else Completed)" by auto
      with cn mn show ?thesis by auto
    qed
  qed
  with ev c(1) m show ?thesis by blast
qed

theorem access_granted_once_after_all_maps_witness:
  "create_and_map (fail_nth 7) 0 4194304 0 (\<lambda>i. i) (\<lambda>i. 2097152) 2 st0 =
     (AccessFailed, snd (create_and_map (fail_nth 7) 0 4194304 0 (\<lambda>i. i) (\<lambda>i. 2097152) 2 st0)) \<and>
   (\<exists>c m a. events (snd (create_and_map (fail_nth 7) 0 4194304 0 (\<lambda>i. i) (\<lambda>i. 2097152) 2 st0)) =
       events (prologue (fail_nth 7) 0 st0) @ c @ m @ a \<and>
     map fst c = create_calls 0 (\<lambda>i. i) (\<lambda>i. 2097152) (length c) \<and>
     map fst m = map_calls 0 (\<lambda>i. i) (\<lambda>i. 2097152)
       (handles (snd (create_and_map (fail_nth 7) 0 4194304 0 (\<lambda>i. i) (\<lambda>i. 2097152) 2 st0)))
       (length m) \<and>
     (a = [] \<and> AccessFailed \<noteq> AccessFailed \<and> AccessFailed \<noteq> Completed \<or>
      (\<exists>r. a = [(cuMemSetAccess 0 4194304 0, r)] \<and>
         length c = unat (2 :: u64) \<and> list_all ok c \<and> length m = unat (2 :: u64) \<and>
         list_all ok m \<and>
         AccessFailed = (if fst r = CUDA_SUCCESS then Completed else AccessFailed))))"
proof -
  let ?run = "create_and_map (fail_nth 7) 0 4194304 0 (\<lambda>i. i) (\<lambda>i. 2097152) 2 st0"
  have "fst ?run = AccessFailed"
    by (simp add: create_and_map_def prologue_def ensure_context_def set_cpu_affinity_for_gpu_def
        invoke_def Let_def create_loop.simps map_loop.simps INT_MAX_def fail_nth_def st0_def)
  then have run: "?run = (AccessFailed, snd ?run)" by (simp add: prod_eq_iff)
  from access_granted_once_after_all_maps [OF run] run show ?thesis by (rule conjI [rotated])
qed

section \<open>The order of teardown\<close>

lemma region_unmap_map:
  "map region (unmap_calls d_mem cs j) = map region (map_calls d_mem ph cs slot j)"
  by (simp add: unmap_calls_def map_calls_def region_def)

text \<open>
  C3. After ensuring the context, \<^verbatim>\<open>unmap_and_release\<close> issues unmappings for the chunks
  \<open>0, 1, \<dots>\<close> in ascending order, at the addresses and with the sizes of the mappings of
  \<^verbatim>\<open>create_and_map\<close>, and then releases of the stored handles in ascending order. A release is
  issued only when all \<^verbatim>\<open>num_chunks\<close> unmappings have been issued and have succeeded; the
  routine completes only when all releases have succeeded too.
\<close>

theorem unmap_all_before_release:
  assumes run: "unmap_and_release drv dev sz d_mem ph cs n st = (s, st')"
  shows "\<exists>u r. events st' = events (ensure_context drv dev st) @ u @ r \<and>
      map fst u = unmap_calls d_mem cs (length u) \<and> length u \<le> unat n \<and>
      map region (map fst u) = map region (map_calls d_mem ph cs (handles st) (length u)) \<and>
      map fst r = release_calls ph (handles st) (length r) \<and> length r \<le> unat n \<and>
      (r \<noteq> [] \<longrightarrow> length u = unat n \<and> list_all ok u) \<and>
      (s = Completed \<longrightarrow> length u = unat n \<and> length r = unat n \<and> list_all ok r)"
proof -
  from unmap_and_release_run [OF run] obtain u r ru rr where
    ev: "events st' = events (ensure_context drv dev st) @ u @ r"
    and u: "map fst u = unmap_calls d_mem cs (length u)" "loop_post UnmapFailed 0 (unat n) ru u"
    and r: "map fst r = release_calls ph (handles st) (length r)"
    and rest: "(case ru of
         Some h \<Rightarrow> s = h \<and> r = []
       | None \<Rightarrow> loop_post ReleaseFailed 0 (unat n) rr r \<and>
           (case rr of Some h \<Rightarrow> s = h | None \<Rightarrow> s = Completed))"
    by blast
  from loop_post_length [OF u(2)] have lu: "length u \<le> unat n" .
  have reg: "map region (map fst u) = map region (map_calls d_mem ph cs (handles st) (length u))"
    unfolding u(1) by (rule region_unmap_map)
  have "length r \<le> unat n \<and> (r \<noteq> [] \<longrightarrow> length u = unat n \<and> list_all ok u) \<and>
      (s = Completed \<longrightarrow> length u = unat n \<and> length r = unat n \<and> list_all ok r)"
  proof (cases ru)
    case (Some h)
    with rest u(2) loop_post_Some [of UnmapFailed 0 "unat n" h u] show ?thesis by auto
  next
    case None
    with rest have lr: "loop_post ReleaseFailed 0 (unat n) rr r" by simp
    from loop_post_None u(2) None have un: "length u = unat n" "list_all ok u" by blast+
    from loop_post_length [OF lr] have "length r \<le> unat n" .
    moreover have "length r = unat n \<and> list_all ok r" if "s = Completed"
    proof (cases rr)
      case (Some h)
      with rest None that lr loop_post_Some [of ReleaseFailed 0 "unat n" h r] show ?thesis by auto
    next
      case rrNone: None
      with loop_post_None lr show ?thesis by blast
    qed
    ultimately show ?thesis using un by simp
  qed
  with ev u(1) lu reg r show ?thesis by blast
qed

theorem unmap_all_before_release_witness:
  "unmap_and_release always_ok 0 4194304 0 (\<lambda>i. i) (\<lambda>i. 2097152) 2 st0 =
     (Completed, snd (unmap_and_release always_ok 0 4194304 0 (\<lambda>i. i) (\<lambda>i. 2097152) 2 st0)) \<and>
   (\<exists>u r. events (snd (unmap_and_release always_ok 0 4194304 0 (\<lambda>i. i) (\<lambda>i. 2097152) 2 st0)) =
        events (ensure_context always_ok 0 st0) @ u @ r \<and>
      map fst u = unmap_calls 0 (\<lambda>i. 2097152) (length u) \<and> length u \<le> unat (2 :: u64) \<and>
      map region (map fst u) =
        map region (map_calls 0 (\<lambda>i. i) (\<lambda>i. 2097152) (handles st0) (length u)) \<and>
      map fst r = release_calls (\<lambda>i. i) (handles st0) (length r) \<and> length r \<le> unat (2 :: u64) \<and>
      (r \<noteq> [] \<longrightarrow> length u = unat (2 :: u64) \<and> list_all ok u) \<and>
      (Completed = Completed \<longrightarrow>
         length u = unat (2 :: u64) \<and> length r = unat (2 :: u64) \<and> list_all ok r))"
proof -
  let ?run = "unmap_and_release always_ok 0 4194304 0 (\<lambda>i. i) (\<lambda>i. 2097152) 2 st0"
  have "fst ?run = Completed"
    by (simp add: unmap_and_release_def ensure_context_def invoke_def Let_def
        unmap_loop.simps release_loop.simps INT_MAX_def always_ok_def st0_def)
  then have run: "?run = (Completed, snd ?run)" by (simp add: prod_eq_iff)
  from unmap_all_before_release [OF run] run show ?thesis by (rule conjI [rotated])
qed

section \<open>Which failures halt create_and_map\<close>

lemma list_all_nth_ok: "list_all ok xs \<Longrightarrow> i < length xs \<Longrightarrow> ok (xs ! i)"
  by (simp add: list_all_length)

lemma create_calls_hd:
  "map fst c = create_calls dev ph cs (length c) \<Longrightarrow> c \<noteq> [] \<Longrightarrow>
     fst (hd c) = cuMemCreate (ph 0) (cs 0) dev"
proof -
  assume m: "map fst c = create_calls dev ph cs (length c)" and ne: "c \<noteq> []"
  then obtain e c' where c: "c = e # c'" by (cases c) auto
  then have "[0..<length c] = 0 # [1..<length c]" by (simp add: upt_conv_Cons del: upt_Suc)
  with m c show ?thesis by (simp add: create_calls_def del: upt_Suc)
qed

lemma loop_post_nonempty: "loop_post failed 0 n r new \<Longrightarrow> 0 < n \<Longrightarrow> new \<noteq> []"
  by (auto simp: loop_post_def split: option.splits if_splits)

lemma loop_post_zero: "loop_post failed 0 0 r new \<Longrightarrow> r = None \<and> new = []"
  by (auto simp: loop_post_def split: option.splits if_splits)

text \<open>
  C5, as the code has it. Whatever the calls of \<^verbatim>\<open>ensure_context\<close> answered (it returns
  nothing, and \<^verbatim>\<open>create_and_map\<close> does not ask), \<^verbatim>\<open>create_and_map\<close> goes on: it asks for the
  thread id, binds the affinity and issues the first chunk call, the creation of chunk 0 or,
  with no chunks, the access call. Among the chunk calls (creation, mapping, access) a
  failing call is always the last one issued.
\<close>

theorem chunk_call_failure_halts_context_failure_does_not:
  assumes run: "create_and_map drv dev sz d_mem ph cs n st = (s, st')"
  shows "\<exists>r1 r2 new. events st' =
        events (ensure_context drv dev st) @
        [(gettid, r1), (sched_setaffinity (snd r1) (affinity_mask dev), r2)] @ new \<and>
      new \<noteq> [] \<and>
      fst (hd new) =
        (if 0 < unat n then cuMemCreate (ph 0) (cs 0) dev else cuMemSetAccess d_mem sz dev) \<and>
      (\<forall>i<length new. \<not> ok (new ! i) \<longrightarrow> Suc i = length new)"
proof -
  from create_and_map_run [OF run] obtain c m a rc rm where
    ev: "events st' = events (prologue drv dev st) @ c @ m @ a"
    and c: "map fst c = create_calls dev ph cs (length c)" "loop_post CreateFailed 0 (unat n) rc c"
    and rest: "(case rc of
         Some h \<Rightarrow> s = h \<and> m = [] \<and> a = []
       | None \<Rightarrow> loop_post MapFailed 0 (unat n) rm m \<and>
           (case rm of
              Some h \<Rightarrow> s = h \<and> a = []
            | None \<Rightarrow> \<exists>r. a = [(cuMemSetAccess d_mem sz dev, r)] \<and>
                s = (if fst r \<noteq> CUDA_SUCCESS then AccessFailed else Completed)))"
    by blast
  let ?new = "c @ m @ a"
  have first: "?new \<noteq> [] \<and> fst (hd ?new) =
        (if 0 < unat n then cuMemCreate (ph 0) (cs 0) dev else cuMemSetAccess d_mem sz dev)"
  proof (cases "0 < unat n")
    case True
    from loop_post_nonempty [OF c(2) True] have "c \<noteq> []" .
    with create_calls_hd [OF c(1)] True show ?thesis by simp
  next
    case False
    with c(2) loop_post_zero [of CreateFailed rc c] have z: "rc = None" "c = []" by simp_all
    with rest False loop_post_zero [of MapFailed rm m] have "rm = None" "m = []" by simp_all
    with rest z False show ?thesis by auto
  qed
  have last: "Suc i = length ?new" if i: "i < length ?new" and bad: "\<not> ok (?new ! i)" for i
  proof (cases rc)
    case (Some h)
    with rest have "?new = c" by simp
    with loop_post_failure_last [OF c(2), of i] i bad show ?thesis by simp
  next
    case None
    with rest have lm: "loop_post MapFailed 0 (unat n) rm m" by simp
    from loop_post_None c(2) None have okc: "list_all ok c" by blast
    show ?thesis
    proof (cases "i < length c")
      case True
      with okc bad show ?thesis by (simp add: nth_append list_all_nth_ok)
    next
      case nc: False
      show ?thesis
      proof (cases rm)
        case (Some h)
        with rest None have a: "a = []" by simp
        with nc i bad have "i - length c < length m" "\<not> ok (m ! (i - length c))"
          by (simp_all add: nth_append)
        from loop_post_failure_last [OF lm this] nc a show ?thesis by simp
      next
        case rmNone: None
        from loop_post_None lm rmNone have okm: "list_all ok m" by blast
        from rest None rmNone obtain r where a: "a = [(cuMemSetAccess d_mem sz dev, r)]" by auto
        show ?thesis
        proof (cases "i - length c < length m")
          case True
          with okm nc bad show ?thesis by (simp add: nth_append list_all_nth_ok)
        next
          case False
          with nc i a show ?thesis by simp
        qed
      qed
    qed
  qed
  from prologue_events [of drv dev st] obtain r1 r2 where
    "events (prologue drv dev st) = events (ensure_context drv dev st) @
       [(gettid, r1), (sched_setaffinity (snd r1) (affinity_mask dev), r2)]" by blast
  with ev have "events st' = events (ensure_context drv dev st) @
       [(gettid, r1), (sched_setaffinity (snd r1) (affinity_mask dev), r2)] @ ?new" by simp
  with first last show ?thesis by blast
qed

theorem context_failure_counterexample:
  "events (ensure_context (fail_nth 0) 0 st0) = [(cuCtxGetCurrent, (CUDA_ERROR 1, 0))] \<and>
   fst (create_and_map (fail_nth 0) 0 2097152 0 (\<lambda>i. i) (\<lambda>i. 2097152) 1 st0) = Completed \<and>
   map fst (events (snd (create_and_map (fail_nth 0) 0 2097152 0 (\<lambda>i. i) (\<lambda>i. 2097152) 1 st0))) =
     [cuCtxGetCurrent, gettid, sched_setaffinity 1 (affinity_mask 0),
      cuMemCreate 0 2097152 0, cuMemMap 0 2097152 1, cuMemSetAccess 0 2097152 0]"
  by (simp add: create_and_map_def prologue_def ensure_context_def set_cpu_affinity_for_gpu_def
      invoke_def Let_def create_loop.simps map_loop.simps INT_MAX_def fail_nth_def st0_def)

theorem chunk_call_failure_halts_context_failure_does_not_witness:
  "create_and_map (fail_at [0, 4]) 0 2097152 0 (\<lambda>i. i) (\<lambda>i. 2097152) 1 st0 =
     (MapFailed 0,
      snd (create_and_map (fail_at [0, 4]) 0 2097152 0 (\<lambda>i. i) (\<lambda>i. 2097152) 1 st0)) \<and>
   map (\<lambda>e. (fst e, fst (snd e)))
     (events (snd (create_and_map (fail_at [0, 4]) 0 2097152 0 (\<lambda>i. i) (\<lambda>i. 2097152) 1 st0))) =
     [(cuCtxGetCurrent, CUDA_ERROR 1), (gettid, CUDA_SUCCESS),
      (sched_setaffinity 1 (affinity_mask 0), CUDA_SUCCESS),
      (cuMemCreate 0 2097152 0, CUDA_SUCCESS), (cuMemMap 0 2097152 1, CUDA_ERROR 1)] \<and>
   (\<exists>r1 r2 new.
      events (snd (create_and_map (fail_at [0, 4]) 0 2097152 0 (\<lambda>i. i) (\<lambda>i. 2097152) 1 st0)) =
        events (ensure_context (fail_at [0, 4]) 0 st0) @
        [(gettid, r1), (sched_setaffinity (snd r1) (affinity_mask 0), r2)] @ new \<and>
      new \<noteq> [] \<and>
      fst (hd new) =
        (if 0 < unat (1 :: u64) then cuMemCreate ((\<lambda>i. i) 0) ((\<lambda>i. 2097152) 0) 0
         else cuMemSetAccess 0 2097152 0) \<and>
      (\<forall>i<length new. \<not> ok (new ! i) \<longrightarrow> Suc i = length new))"
proof -
  let ?run = "create_and_map (fail_at [0, 4]) 0 2097152 0 (\<lambda>i. i) (\<lambda>i. 2097152) 1 st0"
  have ev: "fst ?run = MapFailed 0 \<and>
      map (\<lambda>e. (fst e, fst (snd e))) (events (snd ?run)) =
        [(cuCtxGetCurrent, CUDA_ERROR 1), (gettid, CUDA_SUCCESS),
         (sched_setaffinity 1 (affinity_mask 0), CUDA_SUCCESS),
         (cuMemCreate 0 2097152 0, CUDA_SUCCESS), (cuMemMap 0 2097152 1, CUDA_ERROR 1)]"
    by (simp add: create_and_map_def prologue_def ensure_context_def set_cpu_affinity_for_gpu_def
        invoke_def Let_def create_loop.simps map_loop.simps INT_MAX_def fail_at_def st0_def)
  then have run: "?run = (MapFailed 0, snd ?run)" by (simp add: prod_eq_iff)
  from chunk_call_failure_halts_context_failure_does_not [OF run] run ev
  show ?thesis by (intro conjI) simp_all
qed

section \<open>The affinity mask\<close>

lemma affinity_mask_low: "device \<le> 3 \<Longrightarrow> affinity_mask device = {0..47}"
  by (auto simp: affinity_mask_def cpu_set_loop_eq)

lemma affinity_mask_high: "3 < device \<Longrightarrow> affinity_mask device = {48..95}"
  by (auto simp: affinity_mask_def cpu_set_loop_eq)

text \<open>
  C8. \<^verbatim>\<open>set_cpu_affinity_for_gpu\<close> asks for the id of the calling thread and binds that
  thread to a mask that depends on the device id only: the CPUs 0 to 47 for the device ids
  up to 3, the CPUs 48 to 95 for every larger id, so for the ids 4 to 7.
\<close>

theorem affinity_static_partition:
  "(device \<le> 3 \<longrightarrow> affinity_mask device = {0..47}) \<and>
   (4 \<le> device \<longrightarrow> affinity_mask device = {48..95}) \<and>
   (\<exists>r1 r2. events (set_cpu_affinity_for_gpu drv device st) =
      events st @ [(gettid, r1), (sched_setaffinity (snd r1) (affinity_mask device), r2)])"
proof -
  have "3 < device" if "4 \<le> device"
  proof -
    from that have "unat (4 :: u64) \<le> unat device" by (simp add: word_le_nat_alt)
    then show ?thesis by (simp add: word_less_nat_alt)
  qed
  moreover have "\<exists>r1 r2. events (set_cpu_affinity_for_gpu drv device st) =
      events st @ [(gettid, r1), (sched_setaffinity (snd r1) (affinity_mask device), r2)]"
    by (simp add: set_cpu_affinity_for_gpu_def invoke_def Let_def split: prod.splits)
  ultimately show ?thesis using affinity_mask_low affinity_mask_high by blast
qed

theorem affinity_static_partition_witness:
  "(2 :: u64) \<le> 3 \<and> affinity_mask 2 = {0..47} \<and> (4 :: u64) \<le> 5 \<and> affinity_mask 5 = {48..95} \<and>
   map fst (events (set_cpu_affinity_for_gpu always_ok 5 st0)) =
     [gettid, sched_setaffinity 1 {48..95}]"
proof -
  have lo: "(2 :: u64) \<le> 3" and hi: "(4 :: u64) \<le> 5" by simp_all
  from affinity_static_partition [of 2 always_ok st0] lo
  have m2: "affinity_mask 2 = {0..47}" by blast
  from affinity_static_partition [of 5 always_ok st0] hi
  have m5: "affinity_mask 5 = {48..95}" by blast
  have "map fst (events (set_cpu_affinity_for_gpu always_ok 5 st0)) =
     [gettid, sched_setaffinity 1 (affinity_mask 5)]"
    by (simp add: set_cpu_affinity_for_gpu_def invoke_def Let_def always_ok_def st0_def)
  with lo hi m2 m5 show ?thesis by simp
qed

section \<open>Where the chunks are mapped\<close>

lemma chunk_offset_Suc: "chunk_offset cs (Suc i) = chunk_offset cs i + cs i"
  by (simp add: chunk_offset_def)

lemma sum_prefix_mono: "(i::nat) \<le> j \<Longrightarrow> (\<Sum>k<i. f k :: nat) \<le> (\<Sum>k<j. f k)"
  by (rule sum_mono2) auto

lemma chunk_offset_unat:
  assumes "unat d_mem + (\<Sum>k<j. unat (cs k)) < 2 ^ 64" and "i \<le> j"
  shows "unat (d_mem + chunk_offset cs i) = unat d_mem + (\<Sum>k<i. unat (cs k))"
  using assms(2)
proof (induction i)
  case 0
  show ?case by (simp add: chunk_offset_def)
next
  case (Suc i)
  then have IH: "unat (d_mem + chunk_offset cs i) = unat d_mem + (\<Sum>k<i. unat (cs k))" by simp
  from sum_prefix_mono [OF Suc.prems, of "\<lambda>k. unat (cs k)"] assms(1)
  have "unat d_mem + (\<Sum>k<Suc i. unat (cs k)) < 2 ^ 64" by simp
  with IH have "unat (d_mem + chunk_offset cs i) + unat (cs i) < 2 ^ LENGTH(64)" by simp
  then have "unat (d_mem + chunk_offset cs i + cs i) = unat (d_mem + chunk_offset cs i) + unat (cs i)"
    by (simp only: unat_add_lem)
  with IH show ?case by (simp add: chunk_offset_Suc add.assoc)
qed

lemma chunk_interval_eq:
  assumes "unat d_mem + (\<Sum>k<j. unat (cs k)) < 2 ^ 64" and "i < j"
  shows "chunk_interval (d_mem + chunk_offset cs i) (cs i) =
     {unat d_mem + (\<Sum>k<i. unat (cs k))..<unat d_mem + (\<Sum>k<Suc i. unat (cs k))}"
  using chunk_offset_unat [OF assms(1), of i] assms(2) by (simp add: chunk_interval_def add.assoc)

lemma chunk_interval_disjoint:
  assumes fit: "unat d_mem + (\<Sum>k<j. unat (cs k)) < 2 ^ 64" and "i < j" "i' < j" "i \<noteq> i'"
  shows "chunk_interval (d_mem + chunk_offset cs i) (cs i) \<inter>
         chunk_interval (d_mem + chunk_offset cs i') (cs i') = {}"
proof -
  have step: "{unat d_mem + (\<Sum>k<a. unat (cs k))..<unat d_mem + (\<Sum>k<Suc a. unat (cs k))} \<inter>
        {unat d_mem + (\<Sum>k<b. unat (cs k))..<unat d_mem + (\<Sum>k<Suc b. unat (cs k))} = {}"
    if "a < b" for a b
  proof -
    from that have "Suc a \<le> b" by simp
    from sum_prefix_mono [OF this, of "\<lambda>k. unat (cs k)"] show ?thesis by auto
  qed
  from assms(4) have "i < i' \<or> i' < i" by auto
  then show ?thesis
    unfolding chunk_interval_eq [OF fit assms(2)] chunk_interval_eq [OF fit assms(3)]
    using step [of i i'] step [of i' i] by auto
qed

lemma tiles_union:
  "(\<Union>i<j. {(b::nat) + (\<Sum>k<i. f k)..<b + (\<Sum>k<Suc i. f k)}) = {b..<b + (\<Sum>k<j. f k)}"
proof (induction j)
  case 0
  show ?case by simp
next
  case (Suc j)
  have "(\<Union>i<Suc j. {b + (\<Sum>k<i. f k)..<b + (\<Sum>k<Suc i. f k)}) =
      (\<Union>i<j. {b + (\<Sum>k<i. f k)..<b + (\<Sum>k<Suc i. f k)}) \<union>
      {b + (\<Sum>k<j. f k)..<b + (\<Sum>k<Suc j. f k)}"
    by (simp add: lessThan_Suc Un_commute)
  also have "\<dots> = {b..<b + (\<Sum>k<j. f k)} \<union> {b + (\<Sum>k<j. f k)..<b + (\<Sum>k<Suc j. f k)}"
    by (simp only: Suc.IH)
  also have "\<dots> = {b..<b + (\<Sum>k<Suc j. f k)}" by auto
  finally show ?case .
qed

lemma chunk_interval_union:
  assumes fit: "unat d_mem + (\<Sum>k<j. unat (cs k)) < 2 ^ 64"
  shows "(\<Union>i<j. chunk_interval (d_mem + chunk_offset cs i) (cs i)) =
     {unat d_mem..<unat d_mem + (\<Sum>k<j. unat (cs k))}"
proof -
  have "(\<Union>i<j. chunk_interval (d_mem + chunk_offset cs i) (cs i)) =
      (\<Union>i<j. {unat d_mem + (\<Sum>k<i. unat (cs k))..<unat d_mem + (\<Sum>k<Suc i. unat (cs k))})"
    using chunk_interval_eq [OF fit] by (intro SUP_cong refl) simp
  then show ?thesis by (simp only: tiles_union)
qed

text \<open>
  C2, as the code has it. After the creations, \<^verbatim>\<open>create_and_map\<close> maps the chunks
  \<open>0, 1, \<dots>\<close> in ascending order, chunk \<open>i\<close> at \<open>d_mem + chunk_offset cs i\<close>, a sum taken
  modulo \<open>2 ^ 64\<close>; it maps all \<^verbatim>\<open>num_chunks\<close> of them when it gets as far as the access call.
  When the base address plus the sizes of the mapped chunks stays below \<open>2 ^ 64\<close>, chunk \<open>i\<close>
  occupies exactly the bytes from the end of chunk \<open>i - 1\<close> to its own end, no two chunks
  share a byte, and together they cover the range from the base address to the base address
  plus the sum of the sizes.
\<close>

theorem mapped_chunks_tile_the_range:
  assumes run: "create_and_map drv dev sz d_mem ph cs n st = (s, st')"
  shows "\<exists>c m a. events st' = events (prologue drv dev st) @ c @ m @ a \<and>
     map fst c = create_calls dev ph cs (length c) \<and>
     (a = [] \<or> (\<exists>r. a = [(cuMemSetAccess d_mem sz dev, r)])) \<and>
     map fst m = map_calls d_mem ph cs (handles st') (length m) \<and> length m \<le> unat n \<and>
     (s = Completed \<or> s = AccessFailed \<longrightarrow> length m = unat n) \<and>
     (unat d_mem + (\<Sum>k<length m. unat (cs k)) < 2 ^ 64 \<longrightarrow>
        (\<forall>i<length m. chunk_interval (d_mem + chunk_offset cs i) (cs i) =
           {unat d_mem + (\<Sum>k<i. unat (cs k))..<unat d_mem + (\<Sum>k<Suc i. unat (cs k))}) \<and>
        (\<forall>i<length m. \<forall>i'<length m. i \<noteq> i' \<longrightarrow>
           chunk_interval (d_mem + chunk_offset cs i) (cs i) \<inter>
           chunk_interval (d_mem + chunk_offset cs i') (cs i') = {}) \<and>
        (\<Union>i<length m. chunk_interval (d_mem + chunk_offset cs i) (cs i)) =
           {unat d_mem..<unat d_mem + (\<Sum>k<length m. unat (cs k))})"
proof -
  from create_and_map_run [OF run] obtain c m a rc rm where
    ev: "events st' = events (prologue drv dev st) @ c @ m @ a"
    and c: "map fst c = create_calls dev ph cs (length c)" "loop_post CreateFailed 0 (unat n) rc c"
    and m: "map fst m = map_calls d_mem ph cs (handles st') (length m)"
    and rest: "(case rc of
         Some h \<Rightarrow> s = h \<and> m = [] \<and> a = []
       | None \<Rightarrow> loop_post MapFailed 0 (unat n) rm m \<and>
           (case rm of
              Some h \<Rightarrow> s = h \<and> a = []
            | None \<Rightarrow> \<exists>r. a = [(cuMemSetAccess d_mem sz dev, r)] \<and>
                s = (if fst r \<noteq> CUDA_SUCCESS then AccessFailed else Completed)))"
    by blast
  have shape: "(a = [] \<or> (\<exists>r. a = [(cuMemSetAccess d_mem sz dev, r)])) \<and> length m \<le> unat n \<and>
     (s = Completed \<or> s = AccessFailed \<longrightarrow> length m = unat n)"
  proof (cases rc)
    case (Some h)
    with rest c(2) loop_post_Some [of CreateFailed 0 "unat n" h c] show ?thesis by auto
  next
    case None
    with rest have lm: "loop_post MapFailed 0 (unat n) rm m" by simp
    note len = loop_post_length [OF lm]
    show ?thesis
    proof (cases rm)
      case (Some h)
      with rest None len loop_post_Some [of MapFailed 0 "unat n" h m] show ?thesis by auto
    next
      case rmNone: None
      with loop_post_None lm have "length m = unat n" by blast
      with rest None rmNone show ?thesis by auto
    qed
  qed
  from shape have a: "a = [] \<or> (\<exists>r. a = [(cuMemSetAccess d_mem sz dev, r)])"
    and len: "length m \<le> unat n"
    and all: "s = Completed \<or> s = AccessFailed \<Longrightarrow> length m = unat n"
    by simp_all
  show ?thesis
  proof (intro exI conjI impI)
    show "events st' = events (prologue drv dev st) @ c @ m @ a" by (rule ev)
    show "map fst c = create_calls dev ph cs (length c)" by (rule c(1))
    show "a = [] \<or> (\<exists>r. a = [(cuMemSetAccess d_mem sz dev, r)])" by (rule a)
    show "map fst m = map_calls d_mem ph cs (handles st') (length m)" by (rule m)
    show "length m \<le> unat n" by (rule len)
    show "length m = unat n" if "s = Completed \<or> s = AccessFailed" using that by (rule all)
  next
    assume fit: "unat d_mem + (\<Sum>k<length m. unat (cs k)) < 2 ^ 64"
    show "\<forall>i<length m. chunk_interval (d_mem + chunk_offset cs i) (cs i) =
           {unat d_mem + (\<Sum>k<i. unat (cs k))..<unat d_mem + (\<Sum>k<Suc i. unat (cs k))}"
      using chunk_interval_eq [OF fit] by blast
  next
    assume fit: "unat d_mem + (\<Sum>k<length m. unat (cs k)) < 2 ^ 64"
    show "\<forall>i<length m. \<forall>i'<length m. i \<noteq> i' \<longrightarrow>
           chunk_interval (d_mem + chunk_offset cs i) (cs i) \<inter>
           chunk_interval (d_mem + chunk_offset cs i') (cs i') = {}"
      using chunk_interval_disjoint [OF fit] by blast
  next
    assume fit: "unat d_mem + (\<Sum>k<length m. unat (cs k)) < 2 ^ 64"
    show "(\<Union>i<length m. chunk_interval (d_mem + chunk_offset cs i) (cs i)) =
           {unat d_mem..<unat d_mem + (\<Sum>k<length m. unat (cs k))}"
      by (rule chunk_interval_union [OF fit])
  qed
qed

theorem mapped_chunks_tile_the_range_witness:
  "create_and_map always_ok 0 4194304 4096 (\<lambda>i. i) (\<lambda>i. 2097152) 2 st0 =
     (Completed, snd (create_and_map always_ok 0 4194304 4096 (\<lambda>i. i) (\<lambda>i. 2097152) 2 st0)) \<and>
   (\<exists>m :: event list. map fst m = map_calls 4096 (\<lambda>i. i) (\<lambda>i. 2097152)
        (handles (snd (create_and_map always_ok 0 4194304 4096 (\<lambda>i. i) (\<lambda>i. 2097152) 2 st0)))
        (length m) \<and>
      length m = 2 \<and>
      unat (4096 :: u64) + (\<Sum>k<length m. unat (2097152 :: u64)) < 2 ^ 64 \<and>
      (\<Union>i<length m. chunk_interval (4096 + chunk_offset (\<lambda>i. 2097152) i) 2097152) =
        {unat (4096 :: u64)..<unat (4096 :: u64) + (\<Sum>k<length m. unat (2097152 :: u64))})"
proof -
  let ?run = "create_and_map always_ok 0 4194304 4096 (\<lambda>i. i) (\<lambda>i. 2097152) 2 st0"
  have "fst ?run = Completed"
    by (simp add: create_and_map_def prologue_def ensure_context_def set_cpu_affinity_for_gpu_def
        invoke_def Let_def create_loop.simps map_loop.simps INT_MAX_def always_ok_def st0_def)
  then have run: "?run = (Completed, snd ?run)" by (simp add: prod_eq_iff)
  from mapped_chunks_tile_the_range [OF run]
  have "\<exists>m :: event list. map fst m = map_calls 4096 (\<lambda>i. i) (\<lambda>i. 2097152) (handles (snd ?run)) (length m) \<and>
      length m = 2 \<and>
      unat (4096 :: u64) + (\<Sum>k<length m. unat (2097152 :: u64)) < 2 ^ 64 \<and>
      (\<Union>i<length m. chunk_interval (4096 + chunk_offset (\<lambda>i. 2097152) i) 2097152) =
        {unat (4096 :: u64)..<unat (4096 :: u64) + (\<Sum>k<length m. unat (2097152 :: u64))}"
  proof (elim exE conjE)
    fix c m a :: "event list"
    assume calls: "map fst m = map_calls 4096 (\<lambda>i. i) (\<lambda>i. 2097152) (handles (snd ?run)) (length m)"
      and len: "Completed = Completed \<or> Completed = AccessFailed \<longrightarrow> length m = unat (2 :: u64)"
      and tiles: "unat (4096 :: u64) + (\<Sum>k<length m. unat (2097152 :: u64)) < 2 ^ 64 \<longrightarrow>
        (\<forall>i<length m. chunk_interval (4096 + chunk_offset (\<lambda>i. 2097152) i) 2097152 =
           {unat (4096 :: u64) + (\<Sum>k<i. unat (2097152 :: u64))..<
            unat (4096 :: u64) + (\<Sum>k<Suc i. unat (2097152 :: u64))}) \<and>
        (\<forall>i<length m. \<forall>i'<length m. i \<noteq> i' \<longrightarrow>
           chunk_interval (4096 + chunk_offset (\<lambda>i. 2097152) i) 2097152 \<inter>
           chunk_interval (4096 + chunk_offset (\<lambda>i. 2097152) i') 2097152 = {}) \<and>
        (\<Union>i<length m. chunk_interval (4096 + chunk_offset (\<lambda>i. 2097152) i) 2097152) =
           {unat (4096 :: u64)..<unat (4096 :: u64) + (\<Sum>k<length m. unat (2097152 :: u64))}"
    from len have l2: "length m = 2" by simp
    then have fit: "unat (4096 :: u64) + (\<Sum>k<length m. unat (2097152 :: u64)) < 2 ^ 64" by simp
    with tiles have "(\<Union>i<length m. chunk_interval (4096 + chunk_offset (\<lambda>i. 2097152) i) 2097152) =
           {unat (4096 :: u64)..<unat (4096 :: u64) + (\<Sum>k<length m. unat (2097152 :: u64))}"
      by (rule mp [THEN conjunct2, THEN conjunct2])
    with calls l2 fit show ?thesis by - (rule exI [of _ m], (intro conjI; assumption))
  qed
  with run show ?thesis by (rule conjI)
qed

theorem wrapped_offsets_overlap_counterexample:
  "map fst (events (snd (create_and_map always_ok 0 1 0 (\<lambda>i. i)
      (\<lambda>i. if i < 2 then 9223372036854775808 else 1) 3 st0))) =
     [cuCtxGetCurrent, gettid, sched_setaffinity 1 (affinity_mask 0),
      cuMemCreate 0 9223372036854775808 0, cuMemCreate 1 9223372036854775808 0,
      cuMemCreate 2 1 0,
      cuMemMap 0 9223372036854775808 1, cuMemMap 9223372036854775808 9223372036854775808 1,
      cuMemMap 0 1 1,
      cuMemSetAccess 0 1 0] \<and>
   chunk_interval 0 9223372036854775808 \<inter> chunk_interval 0 1 = {0}"
proof -
  have "chunk_interval 0 9223372036854775808 \<inter> chunk_interval 0 1 = {0}"
    by (auto simp: chunk_interval_def)
  moreover have "map fst (events (snd (create_and_map always_ok 0 1 0 (\<lambda>i. i)
      (\<lambda>i. if i < 2 then 9223372036854775808 else 1) 3 st0))) =
     [cuCtxGetCurrent, gettid, sched_setaffinity 1 (affinity_mask 0),
      cuMemCreate 0 9223372036854775808 0, cuMemCreate 1 9223372036854775808 0,
      cuMemCreate 2 1 0,
      cuMemMap 0 9223372036854775808 1, cuMemMap 9223372036854775808 9223372036854775808 1,
      cuMemMap 0 1 1,
      cuMemSetAccess 0 1 0]"
    by (simp add: create_and_map_def prologue_def ensure_context_def set_cpu_affinity_for_gpu_def
        invoke_def Let_def create_loop.simps map_loop.simps INT_MAX_def always_ok_def st0_def)
  ultimately show ?thesis by simp
qed

section \<open>Aligned size and chunk sizes\<close>

lemma ceil_div_least: "0 < b \<Longrightarrow> (ceil_div a b \<le> k) = (a \<le> k * b)"
proof -
  assume b: "0 < b"
  have "((a + b - 1) div b \<le> k) = (a + b - 1 < (k + 1) * b)"
    using b by (metis Suc_eq_plus1 less_Suc_eq_le div_less_iff_less_mult mult.commute)
  also have "\<dots> = (a \<le> k * b)" using b by auto
  finally show ?thesis by (simp add: ceil_div_def)
qed

lemma ceil_div_upper: "0 < b \<Longrightarrow> a \<le> ceil_div a b * b"
  using ceil_div_least [of b a "ceil_div a b"] by simp

lemma ceil_div_lower: "0 < b \<Longrightarrow> 0 < a \<Longrightarrow> (ceil_div a b - 1) * b < a"
proof -
  assume b: "0 < b" and a: "0 < a"
  have "\<not> ceil_div a b \<le> ceil_div a b - 1"
  proof
    assume le: "ceil_div a b \<le> ceil_div a b - 1"
    then have "ceil_div a b = 0" by simp
    with ceil_div_upper [OF b, of a] a show False by simp
  qed
  with ceil_div_least [OF b, of a "ceil_div a b - 1"] show ?thesis by simp
qed

lemma ceil_div_zero: "0 < b \<Longrightarrow> ceil_div a b = 0 \<Longrightarrow> a = 0"
  using ceil_div_upper [of b a] by simp

lemma init_chunks_eq:
  "init_chunks slots a c n i arrays =
     (fst arrays @ map slots [i..<unat n],
      snd arrays @ map (\<lambda>k. if k = unat (n - 1) then a - (n - 1) * c else c) [i..<unat n])"
proof (induction slots a c n i arrays rule: init_chunks.induct)
  case (1 slots a c n i arrays)
  note unfold = init_chunks.simps [of slots a c n i arrays]
  show ?case
  proof (cases "i < unat n")
    case True
    then have up: "[i..<unat n] = i # [i + 1..<unat n]" by (simp add: upt_conv_Cons)
    from True unfold "1.IH" [OF True] show ?thesis by (simp only: up) simp
  next
    case False
    with unfold show ?thesis by simp
  qed
qed

lemma unat_plus_minus_one:
  fixes x g :: u64
  assumes "g \<noteq> 0" and "unat x + unat g - 1 < 2 ^ 64"
  shows "unat (x + g - 1) = unat x + unat g - 1"
proof -
  from assms(1) have g1: "unat (g - 1) = unat g - 1" by (rule unat_minus_one)
  from assms(1) have "0 < unat g" by (simp add: unat_gt_0)
  with assms(2) g1 have "unat x + unat (g - 1) < 2 ^ LENGTH(64)" by simp
  then have "unat (x + (g - 1)) = unat x + unat (g - 1)" by (simp only: unat_add_lem)
  with g1 \<open>0 < unat g\<close> show ?thesis by (simp add: add_diff_eq)
qed

lemma word_ceil_div:
  fixes x g :: u64
  assumes "g \<noteq> 0" and "unat x + unat g - 1 < 2 ^ 64"
  shows "unat ((x + g - 1) div g) = ceil_div (unat x) (unat g)"
  by (simp add: unat_div unat_plus_minus_one [OF assms] ceil_div_def)

lemma word_round_up:
  fixes x g :: u64
  assumes "g \<noteq> 0" and "unat x + unat g - 1 < 2 ^ 64"
  shows "unat (((x + g - 1) div g) * g) = round_up (unat x) (unat g)"
proof -
  have "unat ((x + g - 1) div g) * unat g \<le> unat (x + g - 1)"
    by (simp add: unat_div)
  also have "\<dots> < 2 ^ LENGTH(64)" by (rule unsigned_less)
  finally have "unat (((x + g - 1) div g) * g) = unat ((x + g - 1) div g) * unat g"
    by (simp only: unat_mult_lem)
  then show ?thesis by (simp add: word_ceil_div [OF assms] round_up_def)
qed

lemma last_chunk_unat:
  fixes a c n :: u64
  assumes c: "c \<noteq> 0" and n: "unat n = ceil_div (unat a) (unat c)" and pos: "0 < unat n"
  shows "unat (a - (n - 1) * c) = unat a - (unat n - 1) * unat c"
    and "0 < unat a - (unat n - 1) * unat c"
    and "unat a - (unat n - 1) * unat c \<le> unat c"
proof -
  from c have c0: "0 < unat c" by (simp add: unat_gt_0)
  from pos have "n \<noteq> 0" by auto
  then have n1: "unat (n - 1) = unat n - 1" by (rule unat_minus_one)
  have a0: "0 < unat a"
  proof (rule ccontr)
    assume "\<not> 0 < unat a"
    then have "ceil_div (unat a) (unat c) = 0" using c0 by (simp add: ceil_div_def)
    with n pos show False by simp
  qed
  from ceil_div_lower [OF c0 a0] n have lo: "(unat n - 1) * unat c < unat a" by simp
  from ceil_div_upper [OF c0, of "unat a"] n have up: "unat a \<le> unat n * unat c" by simp
  have "unat a < 2 ^ LENGTH(64)" by (rule unsigned_less)
  with lo n1 have "unat (n - 1) * unat c < 2 ^ LENGTH(64)" by simp
  then have "unat ((n - 1) * c) = unat (n - 1) * unat c" by (simp only: unat_mult_lem)
  with n1 have m: "unat ((n - 1) * c) = (unat n - 1) * unat c" by simp
  with lo have "(n - 1) * c \<le> a" by (simp add: word_le_nat_alt)
  then show "unat (a - (n - 1) * c) = unat a - (unat n - 1) * unat c"
    by (simp add: unat_sub m)
  from lo show "0 < unat a - (unat n - 1) * unat c" by simp
  from pos have "unat n * unat c = (unat n - 1) * unat c + unat c"
    by (cases "unat n") simp_all
  with up show "unat a - (unat n - 1) * unat c \<le> unat c" by simp
qed

lemma init_chunks_sizes:
  "snd (init_chunks slots a c n 0 ([], [])) =
     map (\<lambda>k. if k = unat (n - 1) then a - (n - 1) * c else c) [0..<unat n]"
  by (simp add: init_chunks_eq)

text \<open>
  C7. Let the chunk size be non-zero and \<open>num_chunks\<close> be the ceiling of
  \<open>alignedSize / aligned_chunk_size\<close>. The initialisation loop of \<^verbatim>\<open>allocate_device_memory\<close>
  then writes \<open>num_chunks\<close> sizes: every chunk but the last gets \<open>aligned_chunk_size\<close>, the
  last one gets \<open>alignedSize - (num_chunks - 1) * aligned_chunk_size\<close>, computed without
  wrap-around, which is more than 0 and at most \<open>aligned_chunk_size\<close>.
\<close>

theorem last_chunk_takes_remainder:
  assumes c: "aligned_chunk_size \<noteq> 0"
    and n: "unat num_chunks = ceil_div (unat alignedSize) (unat aligned_chunk_size)"
  shows "length (snd (init_chunks slots alignedSize aligned_chunk_size num_chunks 0 ([], []))) =
       unat num_chunks \<and>
     (\<forall>i. Suc i < unat num_chunks \<longrightarrow>
        snd (init_chunks slots alignedSize aligned_chunk_size num_chunks 0 ([], [])) ! i =
          aligned_chunk_size) \<and>
     (0 < unat num_chunks \<longrightarrow>
        unat (snd (init_chunks slots alignedSize aligned_chunk_size num_chunks 0 ([], [])) !
                (unat num_chunks - 1)) =
          unat alignedSize - (unat num_chunks - 1) * unat aligned_chunk_size \<and>
        0 < unat alignedSize - (unat num_chunks - 1) * unat aligned_chunk_size \<and>
        unat alignedSize - (unat num_chunks - 1) * unat aligned_chunk_size
          \<le> unat aligned_chunk_size)"
proof (intro conjI allI impI)
  let ?cs = "snd (init_chunks slots alignedSize aligned_chunk_size num_chunks 0 ([], []))"
  show "length ?cs = unat num_chunks" by (simp add: init_chunks_sizes)
  show "?cs ! i = aligned_chunk_size" if "Suc i < unat num_chunks" for i
  proof -
    from that have "num_chunks \<noteq> 0" by auto
    then have "unat (num_chunks - 1) = unat num_chunks - 1" by (rule unat_minus_one)
    with that have "i \<noteq> unat (num_chunks - 1)" "i < unat num_chunks" by simp_all
    then show ?thesis by (simp add: init_chunks_sizes)
  qed
next
  assume pos: "0 < unat num_chunks"
  let ?cs = "snd (init_chunks slots alignedSize aligned_chunk_size num_chunks 0 ([], []))"
  from pos have "num_chunks \<noteq> 0" by auto
  then have "unat (num_chunks - 1) = unat num_chunks - 1" by (rule unat_minus_one)
  with pos have "?cs ! (unat num_chunks - 1) =
      alignedSize - (num_chunks - 1) * aligned_chunk_size"
    by (simp add: init_chunks_sizes)
  with last_chunk_unat(1) [OF c n pos]
  show "unat (?cs ! (unat num_chunks - 1)) =
      unat alignedSize - (unat num_chunks - 1) * unat aligned_chunk_size" by simp
next
  assume pos: "0 < unat num_chunks"
  from last_chunk_unat(2) [OF c n pos]
  show "0 < unat alignedSize - (unat num_chunks - 1) * unat aligned_chunk_size" .
next
  assume pos: "0 < unat num_chunks"
  from last_chunk_unat(3) [OF c n pos]
  show "unat alignedSize - (unat num_chunks - 1) * unat aligned_chunk_size
          \<le> unat aligned_chunk_size" .
qed

theorem last_chunk_takes_remainder_witness:
  "(134217728 :: u64) \<noteq> 0 \<and>
   unat (3 :: u64) = ceil_div (unat (314572800 :: u64)) (unat (134217728 :: u64)) \<and>
   snd (init_chunks (\<lambda>i. i) 314572800 134217728 3 0 ([], [])) =
     [134217728, 134217728, 46137344] \<and>
   Suc 1 < unat (3 :: u64) \<and>
   snd (init_chunks (\<lambda>i. i) 314572800 134217728 3 0 ([], [])) ! 1 = 134217728 \<and>
   0 < unat (3 :: u64) \<and>
   unat (snd (init_chunks (\<lambda>i. i) 314572800 134217728 3 0 ([], [])) ! (unat (3 :: u64) - 1)) =
     unat (314572800 :: u64) - (unat (3 :: u64) - 1) * unat (134217728 :: u64)"
proof -
  have c: "(134217728 :: u64) \<noteq> 0" by simp
  have n: "unat (3 :: u64) = ceil_div (unat (314572800 :: u64)) (unat (134217728 :: u64))"
    by (simp add: ceil_div_def)
  have ev: "snd (init_chunks (\<lambda>i. i) 314572800 134217728 3 0 ([], [])) =
     [134217728, 134217728, 46137344]"
    by (simp add: init_chunks.simps)
  have i: "Suc 1 < unat (3 :: u64)" and pos: "0 < unat (3 :: u64)" by simp_all
  from last_chunk_takes_remainder [OF c n, of "\<lambda>i. i"] i pos
  have "snd (init_chunks (\<lambda>i. i) 314572800 134217728 3 0 ([], [])) ! 1 = 134217728"
    and "unat (snd (init_chunks (\<lambda>i. i) 314572800 134217728 3 0 ([], [])) ! (unat (3 :: u64) - 1)) =
     unat (314572800 :: u64) - (unat (3 :: u64) - 1) * unat (134217728 :: u64)"
    by blast+
  with c n ev i pos show ?thesis by (intro conjI)
qed

lemma round_up_ge: "0 < b \<Longrightarrow> a \<le> round_up a b"
  by (simp add: round_up_def ceil_div_upper)

lemma round_up_mod: "round_up a b mod b = 0"
  by (simp add: round_up_def)

lemma chunk_size_bytes: "CHUNK_SIZE_MB * 1024 * 1024 = (134217728 :: u64)"
  by (simp add: CHUNK_SIZE_MB_def)

lemma allocate_device_memory_Mapped:
  assumes "allocate_device_memory drv slots mem sz g st = (Mapped s, mem', st')"
  shows "g \<noteq> 0"
    and "mem_size mem' = sz"
    and "mem_alignedSize mem' = ((sz + g - 1) div g) * g"
    and "((134217728 + g - 1) div g) * g \<noteq> 0"
    and "mem_num_chunks mem' =
      (mem_alignedSize mem' + ((134217728 + g - 1) div g) * g - 1) div
        (((134217728 + g - 1) div g) * g)"
    and "mem_chunk_sizes mem' =
      snd (init_chunks slots (mem_alignedSize mem') (((134217728 + g - 1) div g) * g)
             (mem_num_chunks mem') 0 ([], []))"
  using assms
  by (auto simp: allocate_device_memory_def Let_def chunk_size_bytes split: if_splits prod.splits)

lemma chunk_sizes_sum:
  fixes a c n :: u64
  assumes c: "c \<noteq> 0" and n: "unat n = ceil_div (unat a) (unat c)"
  shows "(\<Sum>x\<leftarrow>snd (init_chunks slots a c n 0 ([], [])). unat x) = unat a"
proof (cases "0 < unat n")
  case False
  from c have "0 < unat c" by (simp add: unat_gt_0)
  with False n ceil_div_zero [of "unat c" "unat a"] have "unat a = 0" by simp
  with False show ?thesis by (simp add: init_chunks_sizes)
next
  case True
  let ?f = "\<lambda>k. if k = unat (n - 1) then a - (n - 1) * c else c"
  from True have "n \<noteq> 0" by auto
  then have n1: "unat (n - 1) = unat n - 1" by (rule unat_minus_one)
  from True have up: "[0..<unat n] = [0..<unat n - 1] @ [unat n - 1]"
    by (cases "unat n") simp_all
  have "map ?f [0..<unat n - 1] = map (\<lambda>k. c) [0..<unat n - 1]"
    by (rule map_cong) (simp_all add: n1)
  then have "map ?f [0..<unat n] = map (\<lambda>k. c) [0..<unat n - 1] @ [a - (n - 1) * c]"
    by (simp only: up map_append) (simp add: n1)
  then have "(\<Sum>x\<leftarrow>map ?f [0..<unat n]. unat x) =
      (unat n - 1) * unat c + unat (a - (n - 1) * c)"
    by (simp add: sum_list_triv o_def)
  also have "\<dots> = (unat n - 1) * unat c + (unat a - (unat n - 1) * unat c)"
    by (simp only: last_chunk_unat(1) [OF c n True])
  also have "\<dots> = unat a"
    using last_chunk_unat(2) [OF c n True] by simp
  finally show ?thesis by (simp only: init_chunks_sizes)
qed

text \<open>
  C1, as the code has it. Let \<^verbatim>\<open>allocate_device_memory\<close> get as far as \<^verbatim>\<open>create_and_map\<close> (so
  the granularity is not 0 and the reservation succeeded), and let none of the three sums
  \<open>size + granularity - 1\<close>, \<open>128 MiB + granularity - 1\<close> and
  \<open>alignedSize + aligned_chunk_size - 1\<close> exceed the 64 bits of \<^verbatim>\<open>size_t\<close>. Then the aligned
  size is the size rounded up to the granularity, at least the size and a multiple of the
  granularity; the chunk size is 128 MiB rounded up to the granularity; the number of chunks
  is the ceiling of aligned size by chunk size; and the chunk sizes add up to the aligned size.
\<close>

theorem aligned_size_and_chunk_partition:
  assumes run: "allocate_device_memory drv slots mem sz granularity st = (Mapped s, mem', st')"
    and fit1: "unat sz + unat granularity - 1 < 2 ^ 64"
    and fit2: "134217728 + unat granularity - 1 < 2 ^ 64"
    and fit3: "round_up (unat sz) (unat granularity) + round_up 134217728 (unat granularity) - 1
                 < 2 ^ 64"
  shows "0 < unat granularity \<and>
     unat (mem_alignedSize mem') = round_up (unat sz) (unat granularity) \<and>
     unat sz \<le> unat (mem_alignedSize mem') \<and>
     unat (mem_alignedSize mem') mod unat granularity = 0 \<and>
     unat (mem_num_chunks mem') =
       ceil_div (unat (mem_alignedSize mem')) (round_up 134217728 (unat granularity)) \<and>
     length (mem_chunk_sizes mem') = unat (mem_num_chunks mem') \<and>
     (\<Sum>x\<leftarrow>mem_chunk_sizes mem'. unat x) = unat (mem_alignedSize mem')"
proof -
  note f = allocate_device_memory_Mapped [OF run]
  let ?acs = "((134217728 + granularity - 1) div granularity) * granularity"
  from f(1) have g0: "0 < unat granularity" by (simp add: unat_gt_0)
  have A: "unat (mem_alignedSize mem') = round_up (unat sz) (unat granularity)"
    unfolding f(3) by (rule word_round_up [OF f(1) fit1])
  have "unat (134217728 :: u64) + unat granularity - 1 < 2 ^ 64" using fit2 by simp
  from word_round_up [OF f(1) this]
  have C: "unat ?acs = round_up 134217728 (unat granularity)" by simp
  from A C fit3 have fitA: "unat (mem_alignedSize mem') + unat ?acs - 1 < 2 ^ 64" by simp
  have N': "unat (mem_num_chunks mem') = ceil_div (unat (mem_alignedSize mem')) (unat ?acs)"
    unfolding f(5) by (rule word_ceil_div [OF f(4) fitA])
  then have N: "unat (mem_num_chunks mem') =
      ceil_div (unat (mem_alignedSize mem')) (round_up 134217728 (unat granularity))"
    by (simp only: C)
  have L: "length (mem_chunk_sizes mem') = unat (mem_num_chunks mem')"
    by (simp add: f(6) init_chunks_sizes)
  have S: "(\<Sum>x\<leftarrow>mem_chunk_sizes mem'. unat x) = unat (mem_alignedSize mem')"
    unfolding f(6) by (rule chunk_sizes_sum [OF f(4) N'])
  from g0 A N L S round_up_ge [OF g0, of "unat sz"] round_up_mod [of "unat sz" "unat granularity"]
  show ?thesis by simp
qed

theorem aligned_size_wraps_counterexample:
  "fst (allocate_device_memory always_ok (\<lambda>i. i) mem0 18446744073709551615 2097152 st0) =
     Mapped Completed \<and>
   mem_size (fst (snd (allocate_device_memory always_ok (\<lambda>i. i) mem0
      18446744073709551615 2097152 st0))) = 18446744073709551615 \<and>
   mem_alignedSize (fst (snd (allocate_device_memory always_ok (\<lambda>i. i) mem0
      18446744073709551615 2097152 st0))) = 0 \<and>
   mem_chunk_sizes (fst (snd (allocate_device_memory always_ok (\<lambda>i. i) mem0
      18446744073709551615 2097152 st0))) = []"
  by (simp add: allocate_device_memory_def Let_def CHUNK_SIZE_MB_def init_chunks.simps
      create_and_map_def prologue_def ensure_context_def set_cpu_affinity_for_gpu_def
      invoke_def create_loop.simps map_loop.simps INT_MAX_def always_ok_def st0_def mem0_def)

theorem aligned_size_and_chunk_partition_witness:
  "allocate_device_memory always_ok (\<lambda>i. i) mem0 314572799 2097152 st0 =
     (Mapped Completed,
      fst (snd (allocate_device_memory always_ok (\<lambda>i. i) mem0 314572799 2097152 st0)),
      snd (snd (allocate_device_memory always_ok (\<lambda>i. i) mem0 314572799 2097152 st0))) \<and>
   unat (314572799 :: u64) + unat (2097152 :: u64) - 1 < 2 ^ 64 \<and>
   134217728 + unat (2097152 :: u64) - 1 < 2 ^ 64 \<and>
   round_up (unat (314572799 :: u64)) (unat (2097152 :: u64)) +
     round_up 134217728 (unat (2097152 :: u64)) - 1 < 2 ^ 64 \<and>
   unat (mem_alignedSize (fst (snd (allocate_device_memory always_ok (\<lambda>i. i) mem0
      314572799 2097152 st0)))) = round_up (unat (314572799 :: u64)) (unat (2097152 :: u64)) \<and>
   mem_chunk_sizes (fst (snd (allocate_device_memory always_ok (\<lambda>i. i) mem0
      314572799 2097152 st0))) = [134217728, 134217728, 46137344] \<and>
   (\<Sum>x\<leftarrow>mem_chunk_sizes (fst (snd (allocate_device_memory always_ok (\<lambda>i. i) mem0
      314572799 2097152 st0))). unat x) =
     unat (mem_alignedSize (fst (snd (allocate_device_memory always_ok (\<lambda>i. i) mem0
      314572799 2097152 st0))))"
proof -
  let ?run = "allocate_device_memory always_ok (\<lambda>i. i) mem0 314572799 2097152 st0"
  have ev: "fst ?run = Mapped Completed \<and>
      mem_chunk_sizes (fst (snd ?run)) = [134217728, 134217728, 46137344]"
    by (simp add: allocate_device_memory_def Let_def CHUNK_SIZE_MB_def init_chunks.simps
        create_and_map_def prologue_def ensure_context_def set_cpu_affinity_for_gpu_def
        invoke_def create_loop.simps map_loop.simps INT_MAX_def always_ok_def st0_def mem0_def)
  then have run: "?run = (Mapped Completed, fst (snd ?run), snd (snd ?run))"
    by (simp add: prod_eq_iff)
  have fit1: "unat (314572799 :: u64) + unat (2097152 :: u64) - 1 < 2 ^ 64" by simp
  have fit2: "134217728 + unat (2097152 :: u64) - 1 < 2 ^ 64" by simp
  have fit3: "round_up (unat (314572799 :: u64)) (unat (2097152 :: u64)) +
     round_up 134217728 (unat (2097152 :: u64)) - 1 < 2 ^ 64"
    by (simp add: round_up_def ceil_div_def)
  from aligned_size_and_chunk_partition [OF run fit1 fit2 fit3]
  have "unat (mem_alignedSize (fst (snd ?run))) =
      round_up (unat (314572799 :: u64)) (unat (2097152 :: u64))"
    and "(\<Sum>x\<leftarrow>mem_chunk_sizes (fst (snd ?run)). unat x) =
      unat (mem_alignedSize (fst (snd ?run)))"
    by blast+
  with run fit1 fit2 fit3 ev show ?thesis by (intro conjI) simp_all
qed

end
